theory Spec2Isabelle
  imports Main "HOL-Library.AList" "HOL-Library.Multiset" "HOL-Library.Char_ord"
    "HOL-Library.List_Lexorder"
begin

section \<open>The task orchestrator of automation\_scripts/orchestrator.js\<close>

text \<open>
  The class \<open>AIAutomationOrchestrator\<close> is modelled as a record of its mutable fields and a
  transition function over the events of the single-threaded event loop: a call of
  \<open>queueTask\<close>, the settlement of a pending \<open>executeTask\<close> promise, the firing of a retry
  timer, and \<open>stopAllTasks\<close>. Numbers are integers; the identifiers made by
  \<open>generateTaskId\<close> (clock and random suffix) and all clock readings are inputs.
\<close>

subsection \<open>JSON values and the reports directory\<close>

text \<open>
  A parsed JSON text. A JavaScript value that may be \<open>undefined\<close> is a \<open>json option\<close>.
  The reports directory is the list of its file names, in the order of \<open>readdir\<close> (which
  lists the names in ascending order), each with its contents: \<open>None\<close> for a file that cannot
  be read or parsed.
\<close>

datatype json =
    JNull
  | JBool bool
  | JNum int
  | JStr string
  | JArr "json list"
  | JObj "(string \<times> json) list"

type_synonym directory = "(string \<times> json option) list"

subsection \<open>Task descriptors\<close>

text \<open>The \<open>options\<close> bag of \<open>queueTask\<close>; \<open>None\<close> is an absent (undefined) property.\<close>

record options =
  opt_priority :: "int option"
  opt_maxRetries :: "int option"
  opt_timeout :: "int option"

text \<open>\<open>x || d\<close> on a numeric property: undefined and 0 are falsy.\<close>

fun or_default :: "int option \<Rightarrow> int \<Rightarrow> int" where
  "or_default None d = d"
| "or_default (Some v) d = (if v = 0 then d else v)"

record task =
  task_id :: string
  task_type :: string
  options :: options
  priority :: int
  retryCount :: int
  maxRetries :: int
  createdAt :: int

text \<open>The object literal built by \<open>queueTask\<close>.\<close>

definition new_task :: "string \<Rightarrow> string \<Rightarrow> options \<Rightarrow> int \<Rightarrow> task" where
  "new_task taskId taskType opts now =
     \<lparr>task_id = taskId, task_type = taskType, options = opts,
      priority = or_default (opt_priority opts) 5,
      retryCount = 0,
      maxRetries = or_default (opt_maxRetries opts) 3,
      createdAt = now\<rparr>"

subsection \<open>The execution backend\<close>

datatype error =
    UnknownTaskType string
  | TaskFailedWithCode "int option" string
  | ChildError string
  | TaskTimeout

record result =
  success :: bool
  output_text :: string
  duration :: int

text \<open>
  What the spawned child process does: it closes with an exit code (\<open>None\<close> when killed by a
  signal), its standard output and standard error after some milliseconds, or it emits
  \<open>error\<close> after some milliseconds, or it never ends.
\<close>

datatype child =
    Closed "int option" string string nat
  | Errored string nat
  | Hung

text \<open>The \<open>switch\<close> of \<open>executeTask\<close>: the script and its argument, \<open>None\<close> for \<open>default\<close>.\<close>

definition command_of :: "string \<Rightarrow> (string \<times> string) option" where
  "command_of ty =
     (if ty = ''health'' then Some (''automation.js'', ''health'')
      else if ty = ''security'' then Some (''advanced_ai_automation.js'', ''security'')
      else if ty = ''performance'' then Some (''advanced_ai_automation.js'', ''performance'')
      else if ty = ''content'' then Some (''advanced_ai_automation.js'', ''content'')
      else if ty = ''visual'' then Some (''advanced_ai_automation.js'', ''visual'')
      else if ty = ''all'' then Some (''advanced_ai_automation.js'', ''all'')
      else None)"

text \<open>\<open>options.timeout || 300000\<close>.\<close>

definition task_timeout :: "task \<Rightarrow> int" where
  "task_timeout t = or_default (opt_timeout (options t)) 300000"

text \<open>
  The delay that \<open>setTimeout\<close> and \<open>setInterval\<close> give a timer: a delay below 1 ms or above
  2147483647 ms is set to 1 ms.
\<close>

definition timer_delay :: "int \<Rightarrow> int" where
  "timer_delay ms = (if ms < 1 \<or> 2147483647 < ms then 1 else ms)"

text \<open>
  The promise of \<open>executeTask\<close>: rejected at once for an unknown type (no process is
  spawned); otherwise settled by the first of the child's \<open>close\<close>, the child's \<open>error\<close> and
  the timeout (which is taken to be first when both fall on the same millisecond).
  \<open>now\<close> is the clock at the child's \<open>close\<close>.
\<close>

definition executeTask :: "task \<Rightarrow> child \<Rightarrow> int \<Rightarrow> error + result" where
  "executeTask t c now =
     (case command_of (task_type t) of
        None \<Rightarrow> Inl (UnknownTaskType (task_type t))
      | Some cmd \<Rightarrow>
          (case c of
             Closed code out err ms \<Rightarrow>
               if int ms < timer_delay (task_timeout t) then
                 (if code = Some 0
                  then Inr \<lparr>success = True, output_text = out, duration = now - createdAt t\<rparr>
                  else Inl (TaskFailedWithCode code err))
               else Inl TaskTimeout
           | Errored msg ms \<Rightarrow>
               if int ms < timer_delay (task_timeout t) then Inl (ChildError msg) else Inl TaskTimeout
           | Hung \<Rightarrow> Inl TaskTimeout))"

subsection \<open>The orchestrator\<close>

datatype event =
    TaskStarted string string
  | TaskCompleted string string result
  | TaskFailed string string error

text \<open>
  \<open>runningTasks\<close> is the \<open>Map\<close> in insertion order, \<open>taskQueue\<close> the array, and
  \<open>reportsDir\<close> the contents of the directory of that path. Three more components hold
  what the class keeps outside its fields: \<open>emitted\<close>, the events passed to \<open>emit\<close> so
  far; \<open>executing\<close>, the tasks whose \<open>executeTask\<close> promise is pending (the suspended
  calls of \<open>processQueue\<close>); \<open>timers\<close>, the number of pending
  \<open>setTimeout(() => this.processQueue(), 5000)\<close>.
\<close>

record orchestrator =
  runningTasks :: "(string \<times> task) list"
  taskQueue :: "task list"
  maxConcurrentTasks :: nat
  reportsDir :: directory
  emitted :: "event list"
  executing :: "task list"
  timers :: nat

definition constructor :: "directory \<Rightarrow> orchestrator" where
  "constructor dir =
     \<lparr>runningTasks = [], taskQueue = [], maxConcurrentTasks = 3, reportsDir = dir,
      emitted = [], executing = [], timers = 0\<rparr>"

text \<open>
  \<open>processQueue\<close> up to its \<open>await\<close>: the guard, \<open>shift\<close>, \<open>runningTasks.set\<close>, the
  \<open>taskStarted\<close> event (whose handler only logs) and the call of \<open>executeTask\<close>.
\<close>

definition processQueue :: "orchestrator \<Rightarrow> orchestrator" where
  "processQueue s =
     (if maxConcurrentTasks s \<le> length (runningTasks s) \<or> taskQueue s = [] then s
      else
        let t = hd (taskQueue s) in
        s\<lparr>taskQueue := tl (taskQueue s),
          runningTasks := AList.update (task_id t) t (runningTasks s),
          emitted := emitted s @ [TaskStarted (task_id t) (task_type t)],
          executing := executing s @ [t]\<rparr>)"

text \<open>
  \<open>emit\<close> of \<open>taskCompleted\<close> and of \<open>taskFailed\<close>: both handlers log, delete the task from
  \<open>runningTasks\<close> and call \<open>processQueue\<close>.
\<close>

definition emit :: "event \<Rightarrow> orchestrator \<Rightarrow> orchestrator" where
  "emit ev s =
     (case ev of
        TaskStarted taskId taskType \<Rightarrow> s\<lparr>emitted := emitted s @ [ev]\<rparr>
      | TaskCompleted taskId taskType r \<Rightarrow>
          processQueue (s\<lparr>emitted := emitted s @ [ev],
                          runningTasks := AList.delete taskId (runningTasks s)\<rparr>)
      | TaskFailed taskId taskType e \<Rightarrow>
          processQueue (s\<lparr>emitted := emitted s @ [ev],
                          runningTasks := AList.delete taskId (runningTasks s)\<rparr>))"

text \<open>
  \<open>queueTask\<close>: \<open>push\<close>, the sort by priority (\<open>Array.prototype.sort\<close> is stable, as
  \<^const>\<open>sort_key\<close> is), then \<open>processQueue\<close>.
\<close>

definition queueTask :: "string \<Rightarrow> string \<Rightarrow> options \<Rightarrow> int \<Rightarrow> orchestrator \<Rightarrow> orchestrator" where
  "queueTask taskId taskType opts now s =
     processQueue
       (s\<lparr>taskQueue := sort_key priority (taskQueue s @ [new_task taskId taskType opts now])\<rparr>)"

definition remove_nth :: "nat \<Rightarrow> 'a list \<Rightarrow> 'a list" where
  "remove_nth i xs = take i xs @ drop (Suc i) xs"

text \<open>
  The rest of \<open>processQueue\<close>, after the \<open>await\<close>, for the pending execution number \<open>i\<close>:
  \<open>taskCompleted\<close> on success; on failure the retry (count, \<open>unshift\<close>, delete, timer) or
  \<open>taskFailed\<close>.
\<close>

definition settle :: "nat \<Rightarrow> child \<Rightarrow> int \<Rightarrow> orchestrator \<Rightarrow> orchestrator" where
  "settle i c now s =
     (if length (executing s) \<le> i then s
      else
        let t = executing s ! i;
            s1 = s\<lparr>executing := remove_nth i (executing s)\<rparr>
        in case executeTask t c now of
             Inr r \<Rightarrow> emit (TaskCompleted (task_id t) (task_type t) r) s1
           | Inl e \<Rightarrow>
               if retryCount t < maxRetries t then
                 s1\<lparr>taskQueue := t\<lparr>retryCount := retryCount t + 1\<rparr> # taskQueue s1,
                    runningTasks := AList.delete (task_id t) (runningTasks s1),
                    timers := Suc (timers s1)\<rparr>
               else emit (TaskFailed (task_id t) (task_type t) e) s1)"

text \<open>A retry timer fires.\<close>

definition timer :: "orchestrator \<Rightarrow> orchestrator" where
  "timer s = (if timers s = 0 then s else processQueue (s\<lparr>timers := timers s - 1\<rparr>))"

definition stopAllTasks :: "orchestrator \<Rightarrow> orchestrator" where
  "stopAllTasks s = s\<lparr>taskQueue := [], runningTasks := []\<rparr>"

text \<open>
  \<open>fs.writeFile\<close> on a path in the reports directory: a file of that name is replaced, a
  new name is added, at its place in the order of the names.
\<close>

definition writeFile :: "string \<Rightarrow> json option \<Rightarrow> directory \<Rightarrow> directory" where
  "writeFile name contents dir =
     (if name \<in> fst ` set dir then AList.update name contents dir
      else insort_key fst (name, contents) dir)"

text \<open>
  The events of the loop. The orchestrator's own code is in the first four. The fifth is
  the environment's: a child process writes a file into the reports directory while it
  runs, as the probes of advanced\_ai\_automation.js do with their results.
\<close>

datatype action =
    QueueTask string string options int
  | Settle nat child int
  | Timer
  | StopAll
  | ChildWrites string "json option"

fun step :: "orchestrator \<Rightarrow> action \<Rightarrow> orchestrator" where
  "step s (QueueTask taskId taskType opts now) = queueTask taskId taskType opts now s"
| "step s (Settle i c now) = settle i c now s"
| "step s Timer = timer s"
| "step s StopAll = stopAllTasks s"
| "step s (ChildWrites name contents) = s\<lparr>reportsDir := writeFile name contents (reportsDir s)\<rparr>"

definition run :: "orchestrator \<Rightarrow> action list \<Rightarrow> orchestrator" where
  "run s acts = foldl step s acts"

subsection \<open>JavaScript operations on JSON values\<close>

text \<open>The values that count as false in a condition, in \<open>||\<close> and in \<open>!\<close>.\<close>

fun truthy :: "json option \<Rightarrow> bool" where
  "truthy None = False"
| "truthy (Some JNull) = False"
| "truthy (Some (JBool b)) = b"
| "truthy (Some (JNum n)) = (n \<noteq> 0)"
| "truthy (Some (JStr s)) = (s \<noteq> [])"
| "truthy (Some (JArr xs)) = True"
| "truthy (Some (JObj kvs)) = True"

text \<open>\<open>v || d\<close>.\<close>

definition js_or :: "json option \<Rightarrow> json \<Rightarrow> json" where
  "js_or v d = (case v of None \<Rightarrow> d | Some x \<Rightarrow> if truthy v then x else d)"

text \<open>
  \<open>v?.p\<close> for the property names the code reads (none of them is inherited from a
  prototype): own properties of an object, of which \<open>JSON.parse\<close> keeps the last of a
  repeated key, and \<open>length\<close> of an array or a string.
\<close>

fun get_prop :: "json option \<Rightarrow> string \<Rightarrow> json option" where
  "get_prop (Some (JObj kvs)) p = map_of (rev kvs) p"
| "get_prop (Some (JArr xs)) p = (if p = ''length'' then Some (JNum (int (length xs))) else None)"
| "get_prop (Some (JStr s)) p = (if p = ''length'' then Some (JNum (int (length s))) else None)"
| "get_prop (Some (JNum n)) p = None"
| "get_prop (Some (JBool b)) p = None"
| "get_prop (Some JNull) p = None"
| "get_prop None p = None"

text \<open>\<open>v[0]\<close>; \<open>None\<close> is the \<open>TypeError\<close> of \<open>null[0]\<close>.\<close>

fun first_element :: "json \<Rightarrow> json option option" where
  "first_element JNull = None"
| "first_element (JArr xs) = Some (case xs of [] \<Rightarrow> None | x # _ \<Rightarrow> Some x)"
| "first_element (JObj kvs) = Some (map_of (rev kvs) ''0'')"
| "first_element (JStr s) = Some (case s of [] \<Rightarrow> None | c # _ \<Rightarrow> Some (JStr [c]))"
| "first_element (JNum n) = Some None"
| "first_element (JBool b) = Some None"

text \<open>The decimal digits of an integer, and \<open>String(i)\<close>.\<close>

definition digit_char :: "int \<Rightarrow> char" where
  "digit_char d = ''0123456789'' ! nat d"

function show_pos :: "int \<Rightarrow> string" where
  "show_pos n = (if n < 10 then [digit_char n] else show_pos (n div 10) @ [digit_char (n mod 10)])"
  by pat_completeness auto
termination
  by (relation "measure nat") auto

declare show_pos.simps [simp del]

definition show_int :: "int \<Rightarrow> string" where
  "show_int i = (if i < 0 then CHR ''-'' # show_pos (- i) else show_pos i)"

text \<open>
  The string a value turns into in \<open>v + 'ms'\<close>: \<open>Array.prototype.join\<close> for an array
  (with nothing for \<open>null\<close>), \<open>[object Object]\<close> for an object.
\<close>

fun join :: "string \<Rightarrow> string list \<Rightarrow> string" where
  "join sep [] = []"
| "join sep [x] = x"
| "join sep (x # y # ys) = x @ sep @ join sep (y # ys)"

fun json_string :: "json \<Rightarrow> string" where
  "json_string JNull = ''null''"
| "json_string (JBool b) = (if b then ''true'' else ''false'')"
| "json_string (JNum n) = show_int n"
| "json_string (JStr s) = s"
| "json_string (JArr xs) = join '','' (map (\<lambda>x. if x = JNull then [] else json_string x) xs)"
| "json_string (JObj kvs) = ''[object Object]''"

definition to_string :: "json option \<Rightarrow> string" where
  "to_string v = (case v of None \<Rightarrow> ''undefined'' | Some x \<Rightarrow> json_string x)"

text \<open>The number that a string of decimal digits stands for.\<close>

definition is_digit :: "char \<Rightarrow> bool" where
  "is_digit c \<longleftrightarrow> c \<in> set ''0123456789''"

definition digit_value :: "char \<Rightarrow> int" where
  "digit_value c = int (length (takeWhile (\<lambda>d. d \<noteq> c) ''0123456789''))"

definition decimal :: "string \<Rightarrow> int" where
  "decimal ds = foldl (\<lambda>n c. 10 * n + digit_value c) 0 ds"

text \<open>
  An object with string keys, as the list of its own properties in the order in which
  \<open>Object.keys\<close>, \<open>Object.entries\<close> and \<open>JSON.stringify\<close> go through them: the keys that are
  array indices (canonical numerals up to \<open>4294967294\<close>) first, in ascending order, then
  the other keys in the order of their creation. \<open>assign\<close> is \<open>obj[k] = v\<close>.
\<close>

definition is_index :: "string \<Rightarrow> bool" where
  "is_index k \<longleftrightarrow>
     k \<noteq> [] \<and> list_all is_digit k \<and> (k = ''0'' \<or> hd k \<noteq> CHR ''0'') \<and> decimal k < 4294967295"

fun insert_index :: "string \<Rightarrow> 'v \<Rightarrow> (string \<times> 'v) list \<Rightarrow> (string \<times> 'v) list" where
  "insert_index k v [] = [(k, v)]"
| "insert_index k v (p # ps) =
     (if is_index (fst p) \<and> decimal (fst p) < decimal k then p # insert_index k v ps
      else (k, v) # p # ps)"

definition assign :: "string \<Rightarrow> 'v \<Rightarrow> (string \<times> 'v) list \<Rightarrow> (string \<times> 'v) list" where
  "assign k v obj =
     (if k \<in> fst ` set obj then AList.update k v obj
      else if is_index k then insert_index k v obj
      else obj @ [(k, v)])"

text \<open>
  The names of the properties that an object has from \<open>Object.prototype\<close>, as far as
  \<open>split('_')[0]\<close> can give them (the others have \<open>_\<close> in their names). All of them are
  functions.
\<close>

definition inherited :: "string list" where
  "inherited =
     [''constructor'', ''hasOwnProperty'', ''isPrototypeOf'', ''propertyIsEnumerable'',
      ''toLocaleString'', ''toString'', ''valueOf'']"

text \<open>
  \<open>Number(s)\<close> for a string: white space at both ends is dropped; nothing is 0; decimal
  digits, with a sign or without, are their number. Numerals with a fraction, an exponent
  or a radix prefix, and \<open>Infinity\<close>, are beyond the integers of this model; they are taken
  as \<open>NaN\<close>, like everything else. \<open>None\<close> is \<open>NaN\<close>.
\<close>

definition is_space :: "char \<Rightarrow> bool" where
  "is_space c \<longleftrightarrow> c \<in> set [CHR 0x09, CHR 0x0A, CHR 0x0B, CHR 0x0C, CHR 0x0D, CHR '' '']"

definition trim :: "string \<Rightarrow> string" where
  "trim s = rev (dropWhile is_space (rev (dropWhile is_space s)))"

definition digits_number :: "string \<Rightarrow> int option" where
  "digits_number ds = (if ds \<noteq> [] \<and> list_all is_digit ds then Some (decimal ds) else None)"

definition string_number :: "string \<Rightarrow> int option" where
  "string_number s =
     (case trim s of
        [] \<Rightarrow> Some 0
      | c # cs \<Rightarrow>
          if c = CHR ''-'' then map_option uminus (digits_number cs)
          else if c = CHR ''+'' then digits_number cs
          else digits_number (c # cs))"

subsection \<open>The status query\<close>

text \<open>\<open>report.split('_')[0]\<close>.\<close>

definition report_type :: "string \<Rightarrow> string" where
  "report_type name = takeWhile (\<lambda>c. c \<noteq> CHR ''_'') name"

text \<open>
  The loop of \<open>getStatus\<close> over the file names: per type the name that is greatest in the
  order of strings. Where the object \<open>latestReports\<close> has no property of its own for the
  type, \<open>latestReports[type]\<close> is undefined, or the function that \<open>Object.prototype\<close> has
  under that name. The file name is compared with the source text of that function,
  which begins with \<open>function\<close>: a file of type \<open>constructor\<close> is smaller and is never
  recorded; a file whose type is another of these names is greater and is recorded like
  one of a new type.
\<close>

definition latest_step :: "string \<Rightarrow> (string \<times> string) list \<Rightarrow> (string \<times> string) list" where
  "latest_step report latest =
     (case map_of latest (report_type report) of
        None \<Rightarrow>
          if report_type report = ''constructor'' then latest
          else assign (report_type report) report latest
      | Some cur \<Rightarrow>
          if cur = [] \<or> cur < report then assign (report_type report) report latest
          else latest)"

definition latestReports :: "string list \<Rightarrow> (string \<times> string) list" where
  "latestReports reports = fold latest_step reports []"

text \<open>
  The \<open>status\<close> object, and the assignments to it for a report type and the first element
  \<open>r0\<close> of the report's data.
\<close>

type_synonym status = "(string \<times> json) list"

definition summary :: "string \<Rightarrow> json option \<Rightarrow> status \<Rightarrow> status" where
  "summary ty r0 st =
     (if ty = ''performance'' then
        AList.update ''perf-load''
          (js_or (Some (JStr (to_string (get_prop r0 ''loadTime'') @ ''ms''))) (JStr ''--''))
          (AList.update ''perf-score''
             (js_or (get_prop (get_prop r0 ''performanceScore'') ''score'') (JStr ''--'')) st)
      else if ty = ''security'' then
        AList.update ''security-vulns''
          (js_or (get_prop (get_prop r0 ''jsSecurityIssues'') ''length'') (JNum 0))
          (AList.update ''security-score''
             (js_or (get_prop (get_prop r0 ''securityScore'') ''score'') (JStr ''--'')) st)
      else if ty = ''content'' then
        AList.update ''ai-seo''
          (if truthy (get_prop (get_prop (get_prop r0 ''pageData'') ''seo'') ''title'')
           then JStr ''Good'' else JStr ''Poor'')
          (AList.update ''ai-content''
             (js_or (get_prop (get_prop r0 ''aiScore'') ''score'') (JStr ''--'')) st)
      else st)"

text \<open>
  One step of the loop over \<open>latestReports\<close>: an unreadable or unparsable file, and a
  \<open>TypeError\<close>, leave the status as it is (\<open>catch\<close>).
\<close>

definition status_entry :: "directory \<Rightarrow> string \<times> string \<Rightarrow> status \<Rightarrow> status" where
  "status_entry dir e st =
     (case map_of dir (snd e) of
        Some (Some reportData) \<Rightarrow>
          (case first_element reportData of
             None \<Rightarrow> st
           | Some r0 \<Rightarrow> summary (fst e) r0 st)
      | _ \<Rightarrow> st)"

definition getStatus :: "orchestrator \<Rightarrow> status" where
  "getStatus s = fold (status_entry (reportsDir s)) (latestReports (map fst (reportsDir s))) []"

subsection \<open>The comprehensive report\<close>

record entry =
  entry_file :: string
  entry_timestamp :: json
  entry_data :: json

type_synonym report_data = "(string \<times> entry list) list"

datatype jsnum = Finite int | NegInfinity | NaN

record comprehensive =
  generated :: int
  totalReports :: nat
  reportTypes :: "string list"
  latestActivity :: jsnum
  reports :: report_data

text \<open>\<open>if (!reportData[type]) reportData[type] = []\<close>, for a type that is not inherited.\<close>

definition ensure_group :: "string \<Rightarrow> report_data \<Rightarrow> report_data" where
  "ensure_group ty rd = (case map_of rd ty of None \<Rightarrow> assign ty [] rd | Some es \<Rightarrow> rd)"

text \<open>\<open>reportData[type].push(e)\<close>, where the group is there.\<close>

definition push_entry :: "string \<Rightarrow> entry \<Rightarrow> report_data \<Rightarrow> report_data" where
  "push_entry ty e rd =
     (case map_of rd ty of
        None \<Rightarrow> rd
      | Some es \<Rightarrow> AList.update ty (es @ [e]) rd)"

text \<open>The pushed object; \<open>now\<close> is the clock, read where \<open>data.timestamp\<close> is false.\<close>

definition new_entry :: "int \<Rightarrow> string \<Rightarrow> json \<Rightarrow> entry" where
  "new_entry now name d =
     \<lparr>entry_file = name,
      entry_timestamp = js_or (get_prop (Some d) ''timestamp'') (JNum now),
      entry_data = d\<rparr>"

text \<open>
  One step of the loop over the directory. A file that cannot be read or parsed is
  skipped before anything is done. For a type with an inherited name
  \<open>reportData[type]\<close> is a function, which has no \<open>push\<close>: the \<open>TypeError\<close> skips the file. For
  the data \<open>null\<close> the \<open>TypeError\<close> of \<open>null.timestamp\<close> skips the file after the group of
  its type has been made.
\<close>

definition add_report :: "int \<Rightarrow> string \<times> json option \<Rightarrow> report_data \<Rightarrow> report_data" where
  "add_report now f rd =
     (case snd f of
        None \<Rightarrow> rd
      | Some d \<Rightarrow>
          if report_type (fst f) \<in> set inherited then rd
          else if d = JNull then ensure_group (report_type (fst f)) rd
          else push_entry (report_type (fst f)) (new_entry now (fst f) d)
                 (ensure_group (report_type (fst f)) rd))"

text \<open>
  The number a timestamp stands for in \<open>b.timestamp - a.timestamp\<close> and \<open>Math.max\<close>; \<open>None\<close>
  is \<open>NaN\<close>. An array is taken through its string, an object's string is no number.
\<close>

fun to_number :: "json \<Rightarrow> int option" where
  "to_number (JNum n) = Some n"
| "to_number (JBool b) = Some (if b then 1 else 0)"
| "to_number JNull = Some 0"
| "to_number (JStr s) = string_number s"
| "to_number (JArr xs) = string_number (json_string (JArr xs))"
| "to_number (JObj kvs) = None"

text \<open>The comparator \<open>(a, b) => b.timestamp - a.timestamp\<close>; the sort takes \<open>NaN\<close> as 0.\<close>

definition by_timestamp :: "entry \<Rightarrow> entry \<Rightarrow> int" where
  "by_timestamp a b =
     (case (to_number (entry_timestamp b), to_number (entry_timestamp a)) of
        (Some x, Some y) \<Rightarrow> x - y
      | _ \<Rightarrow> 0)"

text \<open>
  \<open>Array.prototype.sort\<close> with a comparator: the stable sort, by insertion. With
  timestamps that are not numbers the comparator is not an order, and the order of the
  outcome is the implementation's; the properties below do not depend on it.
\<close>

fun insert_by :: "('a \<Rightarrow> 'a \<Rightarrow> int) \<Rightarrow> 'a \<Rightarrow> 'a list \<Rightarrow> 'a list" where
  "insert_by cmp x [] = [x]"
| "insert_by cmp x (y # ys) = (if cmp x y \<le> 0 then x # y # ys else y # insert_by cmp x ys)"

definition js_sort :: "('a \<Rightarrow> 'a \<Rightarrow> int) \<Rightarrow> 'a list \<Rightarrow> 'a list" where
  "js_sort cmp xs = foldr (insert_by cmp) xs []"

text \<open>\<open>Math.max(...timestamps)\<close>.\<close>

fun math_max :: "json list \<Rightarrow> jsnum" where
  "math_max [] = NegInfinity"
| "math_max (x # xs) =
     (case (to_number x, math_max xs) of
        (None, _) \<Rightarrow> NaN
      | (Some a, NaN) \<Rightarrow> NaN
      | (Some a, NegInfinity) \<Rightarrow> Finite a
      | (Some a, Finite b) \<Rightarrow> Finite (max a b))"

text \<open>The object \<open>comprehensiveReport\<close>; one clock reading \<open>now\<close> serves the whole call.\<close>

definition comprehensiveReport :: "int \<Rightarrow> directory \<Rightarrow> comprehensive" where
  "comprehensiveReport now dir =
     (let reportData = map (\<lambda>(ty, es). (ty, js_sort by_timestamp es)) (fold (add_report now) dir [])
      in \<lparr>generated = now,
          totalReports = length dir,
          reportTypes = map fst reportData,
          latestActivity = math_max (map entry_timestamp (concat (map snd reportData))),
          reports = reportData\<rparr>)"

text \<open>What \<open>JSON.stringify\<close> writes of the report, as it is parsed again.\<close>

definition entry_json :: "entry \<Rightarrow> json" where
  "entry_json e =
     JObj [(''file'', JStr (entry_file e)), (''timestamp'', entry_timestamp e),
           (''data'', entry_data e)]"

definition report_json :: "comprehensive \<Rightarrow> json" where
  "report_json r =
     JObj [(''generated'', JNum (generated r)),
           (''summary'',
            JObj [(''totalReports'', JNum (int (totalReports r))),
                  (''reportTypes'', JArr (map JStr (reportTypes r))),
                  (''latestActivity'',
                   case latestActivity r of Finite n \<Rightarrow> JNum n | _ \<Rightarrow> JNull)]),
           (''reports'', JObj (map (\<lambda>(ty, es). (ty, JArr (map entry_json es))) (reports r)))]"

text \<open>
  \<open>generateReport\<close>: the report, written into the reports directory as
  \<open>comprehensive_<now>.json\<close> (a new file, or the same file again), and returned.
\<close>

definition generateReport :: "int \<Rightarrow> orchestrator \<Rightarrow> comprehensive \<times> orchestrator" where
  "generateReport now s =
     (let r = comprehensiveReport now (reportsDir s)
      in (r, s\<lparr>reportsDir :=
                writeFile (''comprehensive_'' @ show_int now @ ''.json'') (Some (report_json r))
                  (reportsDir s)\<rparr>))"

subsection \<open>The scheduler\<close>








section \<open>Notions used in the properties\<close>

text \<open>The running set is within the limit.\<close>

definition bounded :: "orchestrator \<Rightarrow> bool" where
  "bounded s \<longleftrightarrow> length (runningTasks s) \<le> maxConcurrentTasks s"

text \<open>The events of one task in the log of \<open>emit\<close>, and how many there are.\<close>

fun is_started :: "string \<Rightarrow> event \<Rightarrow> bool" where
  "is_started x (TaskStarted y ty) = (x = y)"
| "is_started x (TaskCompleted y ty r) = False"
| "is_started x (TaskFailed y ty e) = False"

fun is_failed :: "string \<Rightarrow> event \<Rightarrow> bool" where
  "is_failed x (TaskFailed y ty e) = (x = y)"
| "is_failed x (TaskStarted y ty) = False"
| "is_failed x (TaskCompleted y ty r) = False"

definition started :: "orchestrator \<Rightarrow> string \<Rightarrow> nat" where
  "started s x = length (filter (is_started x) (emitted s))"

definition failed :: "orchestrator \<Rightarrow> string \<Rightarrow> nat" where
  "failed s x = length (filter (is_failed x) (emitted s))"

text \<open>The identifiers of the tasks that wait in the queue or execute.\<close>

definition state_ids :: "orchestrator \<Rightarrow> string list" where
  "state_ids s = map task_id (taskQueue s @ executing s)"

text \<open>The identifiers that \<open>generateTaskId\<close> returned in a sequence of actions.\<close>

fun queued_ids :: "action list \<Rightarrow> string list" where
  "queued_ids [] = []"
| "queued_ids (QueueTask x ty opts now # as) = x # queued_ids as"
| "queued_ids (a # as) = queued_ids as"

text \<open>
  Task identifiers are unique, and the running set holds exactly the executing tasks, in
  the order of their dispatch.
\<close>

definition tracked :: "orchestrator \<Rightarrow> bool" where
  "tracked s \<longleftrightarrow> distinct (state_ids s) \<and> map fst (runningTasks s) = map task_id (executing s)"

text \<open>
  The account of attempts: identifiers are unique; a waiting task has been started
  \<open>retryCount\<close> times and an executing one \<open>retryCount + 1\<close> times; \<open>retryCount\<close> stays within a
  ceiling that is not negative; \<open>taskFailed\<close> is emitted at most once for a task, which is
  then neither waiting nor executing.
\<close>

definition retry_inv :: "orchestrator \<Rightarrow> bool" where
  "retry_inv s \<longleftrightarrow>
     distinct (state_ids s)
     \<and> (\<forall>t\<in>set (taskQueue s). int (started s (task_id t)) = retryCount t)
     \<and> (\<forall>t\<in>set (executing s). int (started s (task_id t)) = retryCount t + 1)
     \<and> (\<forall>t\<in>set (taskQueue s @ executing s). 0 \<le> maxRetries t \<longrightarrow> retryCount t \<le> maxRetries t)
     \<and> (\<forall>x. failed s x \<le> 1 \<and> (0 < failed s x \<longrightarrow> x \<notin> set (state_ids s)))"

text \<open>The identifiers a state mentions: those of its tasks and of its events.\<close>

fun event_id :: "event \<Rightarrow> string" where
  "event_id (TaskStarted x ty) = x"
| "event_id (TaskCompleted x ty r) = x"
| "event_id (TaskFailed x ty e) = x"

definition mentioned :: "orchestrator \<Rightarrow> string set" where
  "mentioned s = set (state_ids s) \<union> event_id ` set (emitted s)"

text \<open>The files that child processes write in a sequence of actions, in their order.\<close>

fun written :: "action list \<Rightarrow> (string \<times> json option) list" where
  "written [] = []"
| "written (ChildWrites name contents # as) = (name, contents) # written as"
| "written (a # as) = written as"

subsection \<open>Concrete runs\<close>

definition no_options :: options where
  "no_options = \<lparr>opt_priority = None, opt_maxRetries = None, opt_timeout = None\<rparr>"

text \<open>
  Five tasks queued on an orchestrator; then the first execution ends with exit code 0,
  the next one with exit code 1, and the retry timer fires.
\<close>

definition five_tasks :: "action list" where
  "five_tasks =
     [QueueTask ''t1'' ''health'' no_options 1, QueueTask ''t2'' ''security'' no_options 2,
      QueueTask ''t3'' ''performance'' no_options 3, QueueTask ''t4'' ''content'' no_options 4,
      QueueTask ''t5'' ''visual'' no_options 5,
      Settle 0 (Closed (Some 0) ''ok'' [] 100) 200,
      Settle 0 (Closed (Some 1) [] ''failed'' 100) 300,
      Timer]"

text \<open>An idle orchestrator with one task waiting.\<close>

definition one_waiting :: orchestrator where
  "one_waiting = (constructor [])\<lparr>taskQueue := [new_task ''t1'' ''health'' no_options 1]\<rparr>"

text \<open>
  A task with \<open>maxRetries\<close> 2 on an idle orchestrator: its first execution ends with exit
  code 1, its second runs into the timeout, and it is started a third time.
\<close>

definition always_failing :: "action list" where
  "always_failing =
     [QueueTask ''t'' ''health'' (no_options\<lparr>opt_maxRetries := Some 2\<rparr>) 0,
      Settle 0 (Closed (Some 1) [] ''boom'' 10) 20,
      Timer,
      Settle 0 Hung 300030,
      Timer]"

definition last_attempt :: orchestrator where
  "last_attempt = run (constructor []) always_failing"

text \<open>What may follow: another task is queued and completes, timers fire.\<close>

definition afterwards :: "action list" where
  "afterwards =
     [QueueTask ''u'' ''health'' no_options 400000, Timer,
      Settle 0 (Closed (Some 0) [] [] 10) 400020, Timer]"

text \<open>A task queued with the override \<open>maxRetries\<close> -1, and its first failure.\<close>

definition negative_retries :: "action list" where
  "negative_retries =
     [QueueTask ''n'' ''health'' (no_options\<lparr>opt_maxRetries := Some (- 1)\<rparr>) 0,
      Settle 0 (Closed (Some 1) [] ''failed'' 10) 20]"

text \<open>A task of a type that \<open>executeTask\<close> does not know, and its first failure.\<close>

definition bogus_once :: "action list" where
  "bogus_once = [QueueTask ''b'' ''bogus'' no_options 0, Settle 0 Hung 1]"

text \<open>
  A task of the scheduler's type \<open>healthCheck\<close>, unknown to \<open>executeTask\<close>, through its four
  attempts; and a performance test with \<open>maxRetries\<close> 1 that times out, then exits with code 1.
\<close>

definition unknown_exhausted :: "action list" where
  "unknown_exhausted =
     [QueueTask ''h'' ''healthCheck'' no_options 0, Settle 0 Hung 1, Timer, Settle 0 Hung 2, Timer,
      Settle 0 Hung 3, Timer, Settle 0 Hung 4]"

definition timed_out :: "action list" where
  "timed_out =
     [QueueTask ''p'' ''performance'' (no_options\<lparr>opt_maxRetries := Some 1\<rparr>) 0,
      Settle 0 Hung 300000, Timer, Settle 0 (Closed (Some 1) [] ''crash'' 500) 305600]"

subsection \<open>Dispatch order\<close>

text \<open>A call \<open>queueTask(taskType, options)\<close> with the identifier and the clock it reads.\<close>

type_synonym request = "string \<times> string \<times> options \<times> int"

fun enqueue :: "request \<Rightarrow> action" where
  "enqueue (taskId, taskType, opts, now) = QueueTask taskId taskType opts now"

fun task_of :: "request \<Rightarrow> task" where
  "task_of (taskId, taskType, opts, now) = new_task taskId taskType opts now"

text \<open>The identifiers of the \<open>taskStarted\<close> events, in the order of their emission.\<close>

fun started_id :: "event \<Rightarrow> string list" where
  "started_id (TaskStarted x ty) = [x]"
| "started_id (TaskCompleted x ty r) = []"
| "started_id (TaskFailed x ty e) = []"

definition dispatch_order :: "orchestrator \<Rightarrow> string list" where
  "dispatch_order s = concat (map started_id (emitted s))"

text \<open>
  A task whose type is known and whose timeout is positive: a child that closes at once
  with exit code 0 resolves it.
\<close>

definition runnable :: "task \<Rightarrow> bool" where
  "runnable t \<longleftrightarrow> command_of (task_type t) \<noteq> None \<and> 0 < task_timeout t"

text \<open>Requests with priorities 5, 1, 3; and six requests with priorities 5, 5, 1, 3, 1, 5.\<close>

definition priority_5_1_3 :: "request list" where
  "priority_5_1_3 =
     [(''a'', ''health'', no_options\<lparr>opt_priority := Some 5\<rparr>, 1),
      (''b'', ''health'', no_options\<lparr>opt_priority := Some 1\<rparr>, 2),
      (''c'', ''health'', no_options\<lparr>opt_priority := Some 3\<rparr>, 3)]"

definition ties :: "request list" where
  "ties =
     [(''z'', ''all'', no_options, 0),
      (''a'', ''health'', no_options\<lparr>opt_priority := Some 5\<rparr>, 1),
      (''b'', ''security'', no_options\<lparr>opt_priority := Some 1\<rparr>, 2),
      (''c'', ''content'', no_options\<lparr>opt_priority := Some 3\<rparr>, 3),
      (''d'', ''visual'', no_options\<lparr>opt_priority := Some 1\<rparr>, 4),
      (''e'', ''performance'', no_options, 5)]"

text \<open>The queue is in ascending order of \<open>priority\<close>.\<close>

definition by_priority :: "orchestrator \<Rightarrow> bool" where
  "by_priority s \<longleftrightarrow> sorted (map priority (taskQueue s))"

text \<open>
  The action is the failure of an execution that is retried; a sequence of actions
  without such a failure.
\<close>

fun is_retry :: "orchestrator \<Rightarrow> action \<Rightarrow> bool" where
  "is_retry s (Settle i c now) =
     (i < length (executing s) \<and> isl (executeTask (executing s ! i) c now)
      \<and> retryCount (executing s ! i) < maxRetries (executing s ! i))"
| "is_retry s (QueueTask taskId taskType opts now) = False"
| "is_retry s Timer = False"
| "is_retry s StopAll = False"
| "is_retry s (ChildWrites name contents) = False"

fun retry_free :: "orchestrator \<Rightarrow> action list \<Rightarrow> bool" where
  "retry_free s [] = True"
| "retry_free s (a # as) = (\<not> is_retry s a \<and> retry_free (step s a) as)"

text \<open>
  The six requests on an orchestrator of concurrency 1: the first executes, five wait.
\<close>

definition three_waiting :: orchestrator where
  "three_waiting = run (constructor []\<lparr>maxConcurrentTasks := 1\<rparr>) (map enqueue ties)"

text \<open>
  Concurrency 1: a task of priority 5 is queued and starts, a task of priority 1 is queued
  and waits, and the first execution fails.
\<close>

definition low_priority_retry :: "action list" where
  "low_priority_retry =
     [QueueTask ''a'' ''health'' (no_options\<lparr>opt_priority := Some 5\<rparr>) 1,
      QueueTask ''b'' ''health'' (no_options\<lparr>opt_priority := Some 1\<rparr>) 2,
      Settle 0 (Closed (Some 1) [] ''failed'' 100) 200]"

definition retried_first :: orchestrator where
  "retried_first = run (constructor []\<lparr>maxConcurrentTasks := 1\<rparr>) low_priority_retry"

subsection \<open>Reports and directories\<close>

text \<open>
  What the performance probe writes: an array with one result per target, here for one
  target; a result of a target that failed has neither \<open>loadTime\<close> nor \<open>performanceScore\<close>.
\<close>

definition perf_ok :: "int \<Rightarrow> int \<Rightarrow> json" where
  "perf_ok score load =
     JArr [JObj [(''url'', JStr ''https://localhost:8443''), (''name'', JStr ''local''),
                 (''timestamp'', JNum 0), (''loadTime'', JNum load),
                 (''performanceScore'', JObj [(''score'', JNum score)]),
                 (''status'', JStr ''success'')]]"

text \<open>
  The entries of a type in a report; the entries the files of a type give; an entry without
  its timestamp; a file whose data carries a timestamp of its own (or that is skipped).
\<close>

definition group_of :: "report_data \<Rightarrow> string \<Rightarrow> entry list" where
  "group_of rd ty = (case map_of rd ty of None \<Rightarrow> [] | Some es \<Rightarrow> es)"

definition entries_of :: "int \<Rightarrow> directory \<Rightarrow> string \<Rightarrow> entry list" where
  "entries_of now dir ty =
     concat (map (\<lambda>f. case snd f of
                          None \<Rightarrow> []
                        | Some d \<Rightarrow> if d \<noteq> JNull \<and> report_type (fst f) = ty \<and> ty \<notin> set inherited
                                    then [new_entry now (fst f) d] else []) dir)"

definition strip :: "entry \<Rightarrow> string \<times> json" where
  "strip e = (entry_file e, entry_data e)"

fun stamped :: "json option \<Rightarrow> bool" where
  "stamped None = True"
| "stamped (Some d) = (d = JNull \<or> truthy (get_prop (Some d) ''timestamp''))"

text \<open>A directory with one report, and the reports of two calls of \<open>generateReport\<close>.\<close>

definition one_report :: directory where
  "one_report = [(''performance_1700000000001.json'', Some (perf_ok 50 900))]"

definition first_report :: comprehensive where
  "first_report = fst (generateReport 1700000000500 (constructor one_report))"

definition second_report :: comprehensive where
  "second_report
     = fst (generateReport 1700000000900 (snd (generateReport 1700000000500 (constructor one_report))))"

text \<open>A directory with a report that carries its own timestamp, and two calls.\<close>

definition visual_report :: json where
  "visual_report =
     JObj [(''timestamp'', JNum 1700000000002),
           (''summary'', JObj [(''totalTests'', JNum 0), (''passed'', JNum 0), (''failed'', JNum 0)]),
           (''results'', JArr [])]"

definition two_reports :: directory where
  "two_reports =
     [(''notes.txt'', None),
      (''performance_1700000000001.json'', Some (perf_ok 50 900)),
      (''visual_regression_1700000000002.json'', Some visual_report)]"

definition once :: "comprehensive \<times> orchestrator" where
  "once = generateReport 1700000000500 (constructor two_reports)"

definition twice :: "comprehensive \<times> orchestrator" where
  "twice = generateReport 1700000000900 (snd once)"

definition failed_target :: json where
  "failed_target =
     JArr [JObj [(''url'', JStr ''https://localhost:8443''), (''name'', JStr ''local''),
                 (''error'', JStr ''net::ERR_CONNECTION_REFUSED''), (''status'', JStr ''failed'')]]"

definition content_ok :: json where
  "content_ok =
     JArr [JObj [(''url'', JStr ''https://localhost:8443''), (''name'', JStr ''local''),
                 (''timestamp'', JNum 1700000000005),
                 (''pageData'', JObj [(''seo'', JObj [(''title'', JStr [])])]),
                 (''aiScore'', JObj [(''score'', JNum 82)]),
                 (''status'', JStr ''success'')]]"

text \<open>
  Reports of three types, one result each: those of the one target, and this target failed
  in all three probes.
\<close>

definition failed_dir :: directory where
  "failed_dir =
     [(''content_analysis_1700000000005.json'', Some failed_target),
      (''performance_1700000000001.json'', Some failed_target),
      (''security_scan_1700000000004.json'', Some failed_target)]"

text \<open>Reports of three types; the security scan failed, the page title is empty.\<close>

definition status_dir :: directory where
  "status_dir =
     [(''content_analysis_1700000000005.json'', Some content_ok),
      (''performance_1700000000001.json'', Some (perf_ok 50 900)),
      (''performance_1700000000002.json'', Some (perf_ok 70 1000)),
      (''performance_1700000000003.json'', Some (perf_ok 60 1100)),
      (''security_scan_1700000000004.json'', Some failed_target)]"

section \<open>Properties\<close>

subsection \<open>The running set is bounded\<close>

lemma length_update_le: "length (AList.update k v al) \<le> Suc (length al)"
  by (induction al) auto

lemma processQueue_max [simp]: "maxConcurrentTasks (processQueue s) = maxConcurrentTasks s"
  by (simp add: processQueue_def Let_def)

lemma processQueue_bounded: "bounded s \<Longrightarrow> bounded (processQueue s)"
proof -
  assume b: "bounded s"
  show ?thesis
  proof (cases "maxConcurrentTasks s \<le> length (runningTasks s) \<or> taskQueue s = []")
    case True
    then show ?thesis using b by (simp add: processQueue_def)
  next
    case False
    then have "length (runningTasks s) < maxConcurrentTasks s" by simp
    moreover have "length (AList.update k v (runningTasks s)) \<le> Suc (length (runningTasks s))"
      for k v by (rule length_update_le)
    ultimately show ?thesis
      using False by (simp add: processQueue_def Let_def bounded_def) (meson Suc_leI le_trans)
  qed
qed

lemma delete_bounded:
  "bounded s \<Longrightarrow> bounded (s\<lparr>runningTasks := AList.delete k (runningTasks s)\<rparr>)"
  using length_delete_le [of k "runningTasks s"] by (simp add: bounded_def)

lemma emit_bounded: "bounded s \<Longrightarrow> bounded (emit ev s)"
proof (cases ev)
  case (TaskStarted a b)
  assume "bounded s"
  then show ?thesis using TaskStarted by (simp add: emit_def bounded_def)
next
  case (TaskCompleted a b r)
  assume "bounded s"
  then have "bounded (s\<lparr>runningTasks := AList.delete a (runningTasks s)\<rparr>)"
    by (rule delete_bounded)
  then have "bounded (s\<lparr>emitted := emitted s @ [ev], runningTasks := AList.delete a (runningTasks s)\<rparr>)"
    by (simp add: bounded_def)
  then show ?thesis using TaskCompleted by (simp add: emit_def processQueue_bounded)
next
  case (TaskFailed a b e)
  assume "bounded s"
  then have "bounded (s\<lparr>runningTasks := AList.delete a (runningTasks s)\<rparr>)"
    by (rule delete_bounded)
  then have "bounded (s\<lparr>emitted := emitted s @ [ev], runningTasks := AList.delete a (runningTasks s)\<rparr>)"
    by (simp add: bounded_def)
  then show ?thesis using TaskFailed by (simp add: emit_def processQueue_bounded)
qed

lemma emit_max [simp]: "maxConcurrentTasks (emit ev s) = maxConcurrentTasks s"
  by (cases ev) (simp_all add: emit_def)

lemma settle_bounded: "bounded s \<Longrightarrow> bounded (settle i c now s)"
proof -
  assume b: "bounded s"
  let ?s1 = "s\<lparr>executing := remove_nth i (executing s)\<rparr>"
  have b1: "bounded ?s1" using b by (simp add: bounded_def)
  have b2: "bounded (?s1\<lparr>taskQueue := q, runningTasks := AList.delete k (runningTasks ?s1),
                         timers := n\<rparr>)" for q k n
    using delete_bounded [OF b1, of k] by (simp add: bounded_def)
  show ?thesis
    using b b2 emit_bounded [OF b1]
    by (simp add: settle_def Let_def split: sum.splits)
qed

lemma settle_max [simp]: "maxConcurrentTasks (settle i c now s) = maxConcurrentTasks s"
  by (simp add: settle_def Let_def split: sum.splits)

lemma step_bounded: "bounded s \<Longrightarrow> bounded (step s a)"
proof (cases a)
  case (QueueTask taskId taskType opts now)
  assume "bounded s"
  then have "bounded (s\<lparr>taskQueue := q\<rparr>)" for q by (simp add: bounded_def)
  then show ?thesis using QueueTask by (simp add: queueTask_def processQueue_bounded)
next
  case (Settle i c now)
  assume "bounded s"
  then show ?thesis using Settle by (simp add: settle_bounded)
next
  case Timer
  assume "bounded s"
  then have "bounded (s\<lparr>timers := n\<rparr>)" for n by (simp add: bounded_def)
  then show ?thesis using Timer \<open>bounded s\<close> by (simp add: timer_def processQueue_bounded)
next
  case StopAll
  then show ?thesis by (simp add: stopAllTasks_def bounded_def)
next
  case (ChildWrites name contents)
  assume "bounded s"
  then show ?thesis using ChildWrites by (simp add: bounded_def)
qed

lemma step_max [simp]: "maxConcurrentTasks (step s a) = maxConcurrentTasks s"
  by (cases a) (simp_all add: queueTask_def timer_def stopAllTasks_def)

lemma run_max [simp]: "maxConcurrentTasks (run s acts) = maxConcurrentTasks s"
  unfolding run_def by (induction acts arbitrary: s) simp_all

lemma run_bounded: "bounded s \<Longrightarrow> bounded (run s acts)"
  unfolding run_def by (induction acts arbitrary: s) (simp_all add: step_bounded)


lemma constructor_bounded: "bounded (constructor dir\<lparr>maxConcurrentTasks := m\<rparr>)"
  by (simp add: bounded_def constructor_def)

lemma processQueue_guard:
  "runningTasks (processQueue s) \<noteq> runningTasks s \<Longrightarrow>
   length (runningTasks s) < maxConcurrentTasks s"
  by (auto simp: processQueue_def Let_def split: if_splits)

lemma processQueue_keys:
  "distinct (map fst (runningTasks s)) \<Longrightarrow> distinct (map fst (runningTasks (processQueue s)))"
  by (simp add: processQueue_def Let_def distinct_update)

lemma emit_keys:
  "distinct (map fst (runningTasks s)) \<Longrightarrow> distinct (map fst (runningTasks (emit ev s)))"
  by (cases ev) (simp_all add: emit_def processQueue_keys distinct_delete)

lemma settle_keys:
  "distinct (map fst (runningTasks s)) \<Longrightarrow> distinct (map fst (runningTasks (settle i c now s)))"
  by (simp add: settle_def Let_def emit_keys distinct_delete split: sum.splits)

lemma step_keys:
  "distinct (map fst (runningTasks s)) \<Longrightarrow> distinct (map fst (runningTasks (step s a)))"
  by (cases a) (simp_all add: queueTask_def timer_def stopAllTasks_def processQueue_keys settle_keys)

lemma run_keys:
  "distinct (map fst (runningTasks s)) \<Longrightarrow> distinct (map fst (runningTasks (run s acts)))"
  unfolding run_def by (induction acts arbitrary: s) (simp_all add: step_keys)

subsection \<open>Zero-valued overrides\<close>

lemma or_default_zero [simp]: "or_default (Some 0) d = d"
  by simp

text \<open>
  C10. An override of 0 is replaced by the built-in default: \<open>priority\<close> 0 gives the task
  priority 5, \<open>maxRetries\<close> 0 gives 3, and with \<open>timeout\<close> 0 the task runs under the timeout
  of 300000 ms, so that a child closing with exit code 0 before that resolves the task
  (and one closing after 300000 ms is a timeout).
\<close>

theorem zero_override_replaced_by_default:
  "priority (new_task taskId taskType (opts\<lparr>opt_priority := Some 0\<rparr>) now) = 5
   \<and> maxRetries (new_task taskId taskType (opts\<lparr>opt_maxRetries := Some 0\<rparr>) now) = 3
   \<and> taskQueue (queueTask taskId taskType
         \<lparr>opt_priority = Some 0, opt_maxRetries = Some 0, opt_timeout = Some 0\<rparr> now
         (constructor dir\<lparr>maxConcurrentTasks := 0\<rparr>))
       = [\<lparr>task_id = taskId, task_type = taskType,
           options = \<lparr>opt_priority = Some 0, opt_maxRetries = Some 0, opt_timeout = Some 0\<rparr>,
           priority = 5, retryCount = 0, maxRetries = 3, createdAt = now\<rparr>]
   \<and> task_timeout (new_task taskId taskType (opts\<lparr>opt_timeout := Some 0\<rparr>) now) = 300000
   \<and> executeTask (new_task taskId ''health'' (opts\<lparr>opt_timeout := Some 0\<rparr>) now)
         (Closed (Some 0) out err 299999) now'
       = Inr \<lparr>success = True, output_text = out, duration = now' - now\<rparr>
   \<and> executeTask (new_task taskId ''health'' (opts\<lparr>opt_timeout := Some 0\<rparr>) now)
         (Closed (Some 0) out err 300001) now'
       = Inl TaskTimeout"
  by (simp add: new_task_def task_timeout_def timer_delay_def executeTask_def command_of_def
      queueTask_def processQueue_def constructor_def)

subsection \<open>Unique identifiers, the running set and the account of attempts\<close>

lemma update_fresh: "k \<notin> fst ` set al \<Longrightarrow> AList.update k v al = al @ [(k, v)]"
  by (induction al) auto

lemma removeAll_nth: "distinct xs \<Longrightarrow> i < length xs \<Longrightarrow> removeAll (xs ! i) xs = take i xs @ drop (Suc i) xs"
proof (induction xs arbitrary: i)
  case Nil then show ?case by simp
next
  case (Cons a xs)
  show ?case
  proof (cases i)
    case 0
    then show ?thesis using Cons.prems by simp
  next
    case (Suc j)
    then show ?thesis using Cons by auto
  qed
qed

lemma running_keys: "tracked s \<Longrightarrow> fst ` set (runningTasks s) = task_id ` set (executing s)"
proof -
  assume "tracked s"
  then have "map fst (runningTasks s) = map task_id (executing s)" by (simp add: tracked_def)
  then have "set (map fst (runningTasks s)) = set (map task_id (executing s))" by simp
  then show ?thesis by simp
qed

lemma processQueue_tracked: "tracked s \<Longrightarrow> tracked (processQueue s)"
proof (cases "maxConcurrentTasks s \<le> length (runningTasks s) \<or> taskQueue s = []")
  case True
  assume "tracked s" then show ?thesis using True by (simp add: processQueue_def)
next
  case False
  assume t: "tracked s"
  obtain x q where q: "taskQueue s = x # q" using False by (cases "taskQueue s") auto
  have d: "distinct (task_id x # map task_id q @ map task_id (executing s))"
    using t q by (simp add: tracked_def state_ids_def)
  then have "task_id x \<notin> task_id ` set (executing s)" by auto
  then have fresh: "task_id x \<notin> fst ` set (runningTasks s)"
    using running_keys [OF t] by simp
  have r: "map fst (runningTasks s) = map task_id (executing s)"
    using t by (simp add: tracked_def)
  have "processQueue s = s\<lparr>taskQueue := q,
          runningTasks := runningTasks s @ [(task_id x, x)],
          emitted := emitted s @ [TaskStarted (task_id x) (task_type x)],
          executing := executing s @ [x]\<rparr>"
    using False q update_fresh [OF fresh] by (simp add: processQueue_def)
  moreover have "distinct (map task_id q @ map task_id (executing s) @ [task_id x])"
    using d by auto
  ultimately show ?thesis using r by (simp add: tracked_def state_ids_def)
qed

lemma tracked_cong:
  "taskQueue s' = taskQueue s \<Longrightarrow> executing s' = executing s \<Longrightarrow>
   runningTasks s' = runningTasks s \<Longrightarrow> tracked s' = tracked s"
  by (simp add: tracked_def state_ids_def)

lemma remove_nth_map: "map f (remove_nth i xs) = remove_nth i (map f xs)"
  by (simp add: remove_nth_def take_map drop_map)

lemma removeAll_remove_nth:
  "distinct xs \<Longrightarrow> i < length xs \<Longrightarrow> removeAll (xs ! i) xs = remove_nth i xs"
  by (simp only: remove_nth_def removeAll_nth)

lemma set_remove_nth: "set (remove_nth i ex) \<subseteq> set ex"
  by (auto simp: remove_nth_def dest: in_set_takeD in_set_dropD)

lemma delete_nth_keys:
  assumes "tracked s" "i < length (executing s)"
  shows "map fst (AList.delete (task_id (executing s ! i)) (runningTasks s))
         = map task_id (remove_nth i (executing s))"
proof -
  let ?ids = "map task_id (executing s)"
  have d: "distinct ?ids" using assms(1) by (simp add: tracked_def state_ids_def)
  have l: "i < length ?ids" using assms(2) by simp
  have n: "task_id (executing s ! i) = ?ids ! i" using assms(2) by simp
  have r: "map fst (runningTasks s) = ?ids" using assms(1) by (simp add: tracked_def)
  have "map fst (AList.delete (task_id (executing s ! i)) (runningTasks s))
        = removeAll (task_id (executing s ! i)) ?ids"
    by (simp only: delete_keys r)
  also have "\<dots> = removeAll (?ids ! i) ?ids" by (simp only: n)
  also have "\<dots> = remove_nth i ?ids"
    using d l by (rule removeAll_remove_nth)
  finally show ?thesis by (simp only: remove_nth_map)
qed

lemma distinct_map_remove_nth:
  assumes "distinct (map f ex)"
  shows "distinct (map f (remove_nth i ex))"
proof (cases "i < length ex")
  case True
  then have l: "i < length (map f ex)" by simp
  have "remove_nth i (map f ex) = removeAll (map f ex ! i) (map f ex)"
    using assms l by (simp only: removeAll_remove_nth)
  then show ?thesis using assms by (simp only: remove_nth_map distinct_removeAll)
next
  case False
  then show ?thesis using assms by (simp add: remove_nth_def)
qed

lemma nth_not_in_rest:
  assumes "distinct (map f ex)" "i < length ex"
  shows "f (ex ! i) \<notin> f ` set (remove_nth i ex)"
proof -
  have l: "i < length (map f ex)" using assms(2) by simp
  have "remove_nth i (map f ex) = removeAll (map f ex ! i) (map f ex)"
    using assms(1) l by (simp only: removeAll_remove_nth)
  then have "map f ex ! i \<notin> set (remove_nth i (map f ex))" by simp
  then have "map f ex ! i \<notin> set (map f (remove_nth i ex))" by (simp add: remove_nth_map)
  then show ?thesis using assms(2) by simp
qed

lemma distinct_remove_nth:
  assumes "distinct (map f (q @ ex))"
  shows "distinct (map f (q @ remove_nth i ex))"
proof -
  have 1: "distinct (map f q)" and 2: "distinct (map f ex)"
    and 3: "f ` set q \<inter> f ` set ex = {}" using assms by auto
  have "f ` set (remove_nth i ex) \<subseteq> f ` set ex"
    using set_remove_nth [of i ex] by blast
  then have "f ` set q \<inter> f ` set (remove_nth i ex) = {}" using 3 by blast
  moreover have "distinct (map f (remove_nth i ex))"
    using 2 by (rule distinct_map_remove_nth)
  ultimately show ?thesis using 1 by auto
qed

lemma remove_tracked:
  assumes "tracked s" "i < length (executing s)"
    and "taskQueue s' = taskQueue s"
    and "executing s' = remove_nth i (executing s)"
    and "runningTasks s' = AList.delete (task_id (executing s ! i)) (runningTasks s)"
  shows "tracked s'"
proof -
  have "distinct (map task_id (taskQueue s @ executing s))"
    using assms(1) by (simp add: tracked_def state_ids_def)
  then have "distinct (map task_id (taskQueue s @ remove_nth i (executing s)))"
    by (rule distinct_remove_nth)
  then show ?thesis
    using assms(3,4,5) delete_nth_keys [OF assms(1,2)] by (simp add: tracked_def state_ids_def)
qed

lemma retry_inv_dispatch:
  assumes "retry_inv s" "taskQueue s = x # q"
  shows "retry_inv (s\<lparr>taskQueue := q, runningTasks := r,
                emitted := emitted s @ [TaskStarted (task_id x) (task_type x)],
                executing := executing s @ [x]\<rparr>)"
  using assms by (auto simp: retry_inv_def state_ids_def started_def failed_def image_iff)

lemma retry_inv_processQueue: "retry_inv s \<Longrightarrow> retry_inv (processQueue s)"
proof (cases "maxConcurrentTasks s \<le> length (runningTasks s) \<or> taskQueue s = []")
  case True
  assume "retry_inv s" then show ?thesis using True by (simp add: processQueue_def)
next
  case False
  assume i: "retry_inv s"
  obtain x q where q: "taskQueue s = x # q" using False by (cases "taskQueue s") auto
  show ?thesis using False q retry_inv_dispatch [OF i q] by (simp add: processQueue_def)
qed

lemma retry_inv_completed:
  assumes "retry_inv s" "i < length (executing s)"
    and "taskQueue s' = taskQueue s"
    and "executing s' = remove_nth i (executing s)"
    and "emitted s' = emitted s @ [TaskCompleted a b r]"
  shows "retry_inv s'"
proof -
  have "distinct (map task_id (taskQueue s @ executing s))"
    using assms(1) by (simp add: retry_inv_def state_ids_def)
  then have d: "distinct (map task_id (taskQueue s @ remove_nth i (executing s)))"
    by (rule distinct_remove_nth)
  have sub: "set (executing s') \<subseteq> set (executing s)"
    using set_remove_nth [of i "executing s"] assms(4) by simp
  have st: "started s' x = started s x" and fl: "failed s' x = failed s x" for x
    using assms(5) by (simp_all add: started_def failed_def)
  have ids: "set (state_ids s') \<subseteq> set (state_ids s)"
    using sub assms(3) by (auto simp: state_ids_def)
  show ?thesis
    unfolding retry_inv_def
  proof (intro conjI)
    show "distinct (state_ids s')" using d assms(3,4) by (simp add: state_ids_def)
    show "\<forall>t\<in>set (taskQueue s'). int (started s' (task_id t)) = retryCount t"
      using assms(1,3) st by (simp add: retry_inv_def)
    show "\<forall>t\<in>set (executing s'). int (started s' (task_id t)) = retryCount t + 1"
      using assms(1) sub st by (auto simp: retry_inv_def)
    show "\<forall>t\<in>set (taskQueue s' @ executing s'). 0 \<le> maxRetries t \<longrightarrow> retryCount t \<le> maxRetries t"
      using assms(1,3) sub by (auto simp: retry_inv_def)
    show "\<forall>x. failed s' x \<le> 1 \<and> (0 < failed s' x \<longrightarrow> x \<notin> set (state_ids s'))"
      using assms(1) ids fl by (auto simp: retry_inv_def)
  qed
qed

lemma retry_inv_failed:
  assumes "retry_inv s" "i < length (executing s)"
    and "taskQueue s' = taskQueue s"
    and "executing s' = remove_nth i (executing s)"
    and "emitted s' = emitted s @ [TaskFailed (task_id (executing s ! i)) b e]"
  shows "retry_inv s'"
proof -
  let ?t = "executing s ! i"
  have d0: "distinct (map task_id (taskQueue s @ executing s))"
    using assms(1) by (simp add: retry_inv_def state_ids_def)
  then have d: "distinct (map task_id (taskQueue s @ remove_nth i (executing s)))"
    by (rule distinct_remove_nth)
  have sub: "set (executing s') \<subseteq> set (executing s)"
    using set_remove_nth [of i "executing s"] assms(4) by simp
  have st: "started s' x = started s x" for x
    using assms(5) by (simp add: started_def)
  have fl: "failed s' x = failed s x + (if x = task_id ?t then 1 else 0)" for x
    using assms(5) by (simp add: failed_def)
  have ids: "set (state_ids s') \<subseteq> set (state_ids s)"
    using sub assms(3) by (auto simp: state_ids_def)
  have tin: "?t \<in> set (executing s)" using assms(2) by simp
  then have "task_id ?t \<in> set (state_ids s)" by (simp add: state_ids_def)
  then have f0: "failed s (task_id ?t) = 0" using assms(1) by (auto simp: retry_inv_def)
  have "distinct (map task_id (executing s))" using d0 by simp
  then have n1: "task_id ?t \<notin> task_id ` set (remove_nth i (executing s))"
    using assms(2) by (rule nth_not_in_rest)
  have n2: "task_id ?t \<notin> task_id ` set (taskQueue s)" using d0 tin by auto
  have gone: "task_id ?t \<notin> set (state_ids s')"
    using n1 n2 assms(3,4) by (simp add: state_ids_def)
  show ?thesis
    unfolding retry_inv_def
  proof (intro conjI)
    show "distinct (state_ids s')" using d assms(3,4) by (simp add: state_ids_def)
    show "\<forall>t\<in>set (taskQueue s'). int (started s' (task_id t)) = retryCount t"
      using assms(1,3) st by (simp add: retry_inv_def)
    show "\<forall>t\<in>set (executing s'). int (started s' (task_id t)) = retryCount t + 1"
      using assms(1) sub st by (auto simp: retry_inv_def)
    show "\<forall>t\<in>set (taskQueue s' @ executing s'). 0 \<le> maxRetries t \<longrightarrow> retryCount t \<le> maxRetries t"
      using assms(1,3) sub by (auto simp: retry_inv_def)
    show "\<forall>x. failed s' x \<le> 1 \<and> (0 < failed s' x \<longrightarrow> x \<notin> set (state_ids s'))"
    proof
      fix x
      show "failed s' x \<le> 1 \<and> (0 < failed s' x \<longrightarrow> x \<notin> set (state_ids s'))"
      proof (cases "x = task_id ?t")
        case True
        then show ?thesis using f0 fl [of x] gone by simp
      next
        case False
        then have "failed s' x = failed s x" using fl [of x] by simp
        then show ?thesis using assms(1) ids by (auto simp: retry_inv_def)
      qed
    qed
  qed
qed

lemma retry_inv_retry:
  assumes "retry_inv s" "i < length (executing s)"
    and "retryCount (executing s ! i) < maxRetries (executing s ! i)"
    and "taskQueue s' = (executing s ! i)\<lparr>retryCount := retryCount (executing s ! i) + 1\<rparr> # taskQueue s"
    and "executing s' = remove_nth i (executing s)"
    and "emitted s' = emitted s"
  shows "retry_inv s'"
proof -
  let ?t = "executing s ! i"
  have d0: "distinct (map task_id (taskQueue s @ executing s))"
    using assms(1) by (simp add: retry_inv_def state_ids_def)
  then have d: "distinct (map task_id (taskQueue s @ remove_nth i (executing s)))"
    by (rule distinct_remove_nth)
  have sub: "set (executing s') \<subseteq> set (executing s)"
    using set_remove_nth [of i "executing s"] assms(5) by simp
  have st: "started s' x = started s x" and fl: "failed s' x = failed s x" for x
    using assms(6) by (simp_all add: started_def failed_def)
  have tin: "?t \<in> set (executing s)" using assms(2) by simp
  have "distinct (map task_id (executing s))" using d0 by simp
  then have n1: "task_id ?t \<notin> task_id ` set (remove_nth i (executing s))"
    using assms(2) by (rule nth_not_in_rest)
  have n2: "task_id ?t \<notin> task_id ` set (taskQueue s)" using d0 tin by auto
  have ids: "set (state_ids s') \<subseteq> set (state_ids s)"
    using sub assms(4) tin by (auto simp: state_ids_def)
  have c: "int (started s (task_id ?t)) = retryCount ?t + 1"
    using assms(1) tin by (simp add: retry_inv_def)
  show ?thesis
    unfolding retry_inv_def
  proof (intro conjI)
    show "distinct (state_ids s')" using d n1 n2 assms(4,5) by (simp add: state_ids_def)
    show "\<forall>t\<in>set (taskQueue s'). int (started s' (task_id t)) = retryCount t"
      using assms(1,4) st c by (simp add: retry_inv_def)
    show "\<forall>t\<in>set (executing s'). int (started s' (task_id t)) = retryCount t + 1"
      using assms(1) sub st by (auto simp: retry_inv_def)
    show "\<forall>t\<in>set (taskQueue s' @ executing s'). 0 \<le> maxRetries t \<longrightarrow> retryCount t \<le> maxRetries t"
      using assms(1,3,4) sub by (auto simp: retry_inv_def)
    show "\<forall>x. failed s' x \<le> 1 \<and> (0 < failed s' x \<longrightarrow> x \<notin> set (state_ids s'))"
      using assms(1) ids fl by (auto simp: retry_inv_def)
  qed
qed

lemma not_mentioned_started: "x \<notin> event_id ` set es \<Longrightarrow> filter (is_started x) es = []"
proof (induction es)
  case Nil then show ?case by simp
next
  case (Cons e es) then show ?case by (cases e) auto
qed

lemma not_mentioned_failed: "x \<notin> event_id ` set es \<Longrightarrow> filter (is_failed x) es = []"
proof (induction es)
  case Nil then show ?case by simp
next
  case (Cons e es) then show ?case by (cases e) auto
qed

lemma distinct_map_sort_key: "distinct (map f (sort_key k xs)) = distinct (map f xs)"
proof -
  have "mset (map f (sort_key k xs)) = mset (map f xs)" by simp
  then show ?thesis by (rule mset_eq_imp_distinct_iff)
qed

lemma retry_inv_enqueue:
  assumes "retry_inv s" "x \<notin> mentioned s"
    and "taskQueue s' = sort_key priority (taskQueue s @ [new_task x ty opts now])"
    and "executing s' = executing s"
    and "emitted s' = emitted s"
  shows "retry_inv s'"
proof -
  let ?n = "new_task x ty opts now"
  have idn: "task_id ?n = x" and rc: "retryCount ?n = 0"
    and mr: "maxRetries ?n = or_default (opt_maxRetries opts) 3" by (simp_all add: new_task_def)
  have st: "started s' y = started s y" and fl: "failed s' y = failed s y" for y
    using assms(5) by (simp_all add: started_def failed_def)
  have x0: "started s x = 0" "failed s x = 0"
    using assms(2) by (simp_all add: mentioned_def started_def failed_def
        not_mentioned_started not_mentioned_failed)
  have xs: "x \<notin> set (state_ids s)" using assms(2) by (simp add: mentioned_def)
  have q: "set (taskQueue s') = insert ?n (set (taskQueue s))" using assms(3) by simp
  have ids: "set (state_ids s') = insert x (set (state_ids s))"
    using q assms(4) idn by (auto simp: state_ids_def)
  have "distinct (map task_id (taskQueue s @ [?n]) @ map task_id (executing s))"
    using assms(1) xs idn by (auto simp: retry_inv_def state_ids_def)
  then have d: "distinct (map task_id (sort_key priority (taskQueue s @ [?n])) @ map task_id (executing s))"
    by (simp only: distinct_append distinct_map_sort_key set_map set_sort)
  show ?thesis
    unfolding retry_inv_def
  proof (intro conjI)
    show "distinct (state_ids s')" using d assms(3,4) by (simp add: state_ids_def)
    show "\<forall>t\<in>set (taskQueue s'). int (started s' (task_id t)) = retryCount t"
      using assms(1) q st x0 idn rc by (auto simp: retry_inv_def)
    show "\<forall>t\<in>set (executing s'). int (started s' (task_id t)) = retryCount t + 1"
      using assms(1,4) st by (auto simp: retry_inv_def)
    show "\<forall>t\<in>set (taskQueue s' @ executing s'). 0 \<le> maxRetries t \<longrightarrow> retryCount t \<le> maxRetries t"
      using assms(1,4) q rc by (auto simp: retry_inv_def)
    show "\<forall>x. failed s' x \<le> 1 \<and> (0 < failed s' x \<longrightarrow> x \<notin> set (state_ids s'))"
      using assms(1) ids fl x0 by (auto simp: retry_inv_def)
  qed
qed

lemma retry_inv_stop:
  assumes "retry_inv s" "taskQueue s' = []" "executing s' = executing s" "emitted s' = emitted s"
  shows "retry_inv s'"
proof -
  have st: "started s' y = started s y" and fl: "failed s' y = failed s y" for y
    using assms(4) by (simp_all add: started_def failed_def)
  show ?thesis using assms(1,2,3) st fl by (auto simp: retry_inv_def state_ids_def)
qed

lemma retry_inv_settle: "retry_inv s \<Longrightarrow> retry_inv (settle i c now s)"
proof (cases "length (executing s) \<le> i")
  case True
  assume "retry_inv s" then show ?thesis using True by (simp add: settle_def)
next
  case False
  assume v: "retry_inv s"
  have l: "i < length (executing s)" using False by simp
  let ?t = "executing s ! i"
  let ?s1 = "s\<lparr>executing := remove_nth i (executing s)\<rparr>"
  show ?thesis
  proof (cases "executeTask ?t c now")
    case (Inr r)
    let ?s2 = "?s1\<lparr>emitted := emitted ?s1 @ [TaskCompleted (task_id ?t) (task_type ?t) r],
                     runningTasks := AList.delete (task_id ?t) (runningTasks ?s1)\<rparr>"
    have "retry_inv ?s2" by (rule retry_inv_completed [OF v l]) simp_all
    then have "retry_inv (processQueue ?s2)" by (rule retry_inv_processQueue)
    then show ?thesis using False Inr by (simp add: settle_def emit_def Let_def)
  next
    case (Inl e)
    show ?thesis
    proof (cases "retryCount ?t < maxRetries ?t")
      case True
      let ?s2 = "?s1\<lparr>taskQueue := ?t\<lparr>retryCount := retryCount ?t + 1\<rparr> # taskQueue ?s1,
                     runningTasks := AList.delete (task_id ?t) (runningTasks ?s1),
                     timers := Suc (timers ?s1)\<rparr>"
      have "retry_inv ?s2" by (rule retry_inv_retry [OF v l True]) simp_all
      then show ?thesis using False Inl True by (simp add: settle_def Let_def)
    next
      case nr: False
      let ?s2 = "?s1\<lparr>emitted := emitted ?s1 @ [TaskFailed (task_id ?t) (task_type ?t) e],
                     runningTasks := AList.delete (task_id ?t) (runningTasks ?s1)\<rparr>"
      have "retry_inv ?s2" by (rule retry_inv_failed [OF v l]) simp_all
      then have "retry_inv (processQueue ?s2)" by (rule retry_inv_processQueue)
      then show ?thesis using False Inl nr by (simp add: settle_def emit_def Let_def)
    qed
  qed
qed

lemma mentioned_processQueue: "mentioned (processQueue s) \<subseteq> mentioned s"
proof (cases "maxConcurrentTasks s \<le> length (runningTasks s) \<or> taskQueue s = []")
  case True
  then show ?thesis by (simp add: processQueue_def)
next
  case False
  then obtain x q where q: "taskQueue s = x # q" by (cases "taskQueue s") auto
  show ?thesis using False q by (auto simp: processQueue_def mentioned_def state_ids_def)
qed

lemma mentioned_settle: "mentioned (settle i c now s) \<subseteq> mentioned s"
proof (cases "length (executing s) \<le> i")
  case True
  then show ?thesis by (simp add: settle_def)
next
  case False
  then have l: "i < length (executing s)" by simp
  let ?t = "executing s ! i"
  let ?s1 = "s\<lparr>executing := remove_nth i (executing s)\<rparr>"
  have tin: "task_id ?t \<in> mentioned s" using l by (simp add: mentioned_def state_ids_def)
  have sub: "set (remove_nth i (executing s)) \<subseteq> set (executing s)" by (rule set_remove_nth)
  have ev: "mentioned (?s1\<lparr>emitted := emitted ?s1 @ [ev], runningTasks := r\<rparr>) \<subseteq> mentioned s"
    if "event_id ev = task_id ?t" for ev r
    using that tin sub by (auto simp: mentioned_def state_ids_def)
  show ?thesis
  proof (cases "executeTask ?t c now")
    case (Inr r)
    have "mentioned (emit (TaskCompleted (task_id ?t) (task_type ?t) r) ?s1) \<subseteq> mentioned s"
      using mentioned_processQueue ev [of "TaskCompleted (task_id ?t) (task_type ?t) r"]
      by (simp add: emit_def) blast
    then show ?thesis using False Inr by (simp add: settle_def Let_def)
  next
    case (Inl e)
    have 1: "mentioned (emit (TaskFailed (task_id ?t) (task_type ?t) e) ?s1) \<subseteq> mentioned s"
      using mentioned_processQueue ev [of "TaskFailed (task_id ?t) (task_type ?t) e"]
      by (simp add: emit_def) blast
    have 2: "mentioned (?s1\<lparr>taskQueue := ?t\<lparr>retryCount := retryCount ?t + 1\<rparr> # taskQueue ?s1,
                     runningTasks := r, timers := n\<rparr>) \<subseteq> mentioned s" for r n
      using tin sub by (auto simp: mentioned_def state_ids_def)
    show ?thesis using False Inl 1 2 by (simp add: settle_def Let_def)
  qed
qed

lemma mentioned_step: "mentioned (step s a) \<subseteq> mentioned s \<union> set (queued_ids [a])"
proof (cases a)
  case (QueueTask x ty opts now)
  have "mentioned (s\<lparr>taskQueue := sort_key priority (taskQueue s @ [new_task x ty opts now])\<rparr>)
        \<subseteq> insert x (mentioned s)"
    by (auto simp: mentioned_def state_ids_def new_task_def)
  then show ?thesis using QueueTask mentioned_processQueue
    by (simp add: queueTask_def) blast
next
  case (Settle i c now)
  then show ?thesis using mentioned_settle by auto
next
  case Timer
  have "mentioned (s\<lparr>timers := n\<rparr>) = mentioned s" for n
    by (simp add: mentioned_def state_ids_def)
  then show ?thesis using Timer mentioned_processQueue [of "s\<lparr>timers := timers s - 1\<rparr>"]
    by (auto simp: timer_def)
next
  case StopAll
  then show ?thesis by (auto simp: stopAllTasks_def mentioned_def state_ids_def)
next
  case (ChildWrites name contents)
  then show ?thesis by (simp add: mentioned_def state_ids_def)
qed

lemma retry_inv_step:
  assumes "retry_inv s" "set (queued_ids [a]) \<inter> mentioned s = {}"
  shows "retry_inv (step s a)"
proof (cases a)
  case (QueueTask x ty opts now)
  have "x \<notin> mentioned s" using assms(2) QueueTask by simp
  then have "retry_inv (s\<lparr>taskQueue := sort_key priority (taskQueue s @ [new_task x ty opts now])\<rparr>)"
    by (rule retry_inv_enqueue [OF assms(1)]) simp_all
  then show ?thesis using QueueTask by (simp add: queueTask_def retry_inv_processQueue)
next
  case (Settle i c now)
  then show ?thesis using assms(1) by (simp add: retry_inv_settle)
next
  case Timer
  have "retry_inv (s\<lparr>timers := n\<rparr>)" for n
    using assms(1) by (simp add: retry_inv_def state_ids_def started_def failed_def)
  then show ?thesis using Timer assms(1) by (simp add: timer_def retry_inv_processQueue)
next
  case StopAll
  have "retry_inv (stopAllTasks s)" by (rule retry_inv_stop [OF assms(1)]) (simp_all add: stopAllTasks_def)
  then show ?thesis using StopAll by simp
next
  case (ChildWrites name contents)
  have "retry_inv (s\<lparr>reportsDir := d\<rparr>)" for d
    using assms(1) by (simp add: retry_inv_def state_ids_def started_def failed_def)
  then show ?thesis using ChildWrites by simp
qed

lemma queued_ids_Cons: "queued_ids (a # as) = queued_ids [a] @ queued_ids as"
  by (cases a) simp_all

lemma retry_inv_run:
  "retry_inv s \<Longrightarrow> distinct (queued_ids acts) \<Longrightarrow> set (queued_ids acts) \<inter> mentioned s = {} \<Longrightarrow>
   retry_inv (run s acts)"
proof (induction acts arbitrary: s)
  case Nil
  then show ?case by (simp add: run_def)
next
  case (Cons a as)
  have split: "queued_ids (a # as) = queued_ids [a] @ queued_ids as" by (rule queued_ids_Cons)
  have 1: "set (queued_ids [a]) \<inter> mentioned s = {}" using Cons.prems(3) split by auto
  have 2: "retry_inv (step s a)" using Cons.prems(1) 1 by (rule retry_inv_step)
  have 3: "distinct (queued_ids as)" using Cons.prems(2) split by simp
  have 4: "set (queued_ids as) \<inter> set (queued_ids [a]) = {}" using Cons.prems(2) split by auto
  have 5: "set (queued_ids as) \<inter> mentioned s = {}" using Cons.prems(3) split by auto
  have 6: "set (queued_ids as) \<inter> mentioned (step s a) = {}"
    using 4 5 mentioned_step [of s a] by blast
  have "retry_inv (run (step s a) as)" using 2 3 6 by (rule Cons.IH)
  then show ?case by (simp add: run_def)
qed

lemma tracked_retry:
  assumes "tracked s" "i < length (executing s)"
    and "taskQueue s' = (executing s ! i)\<lparr>retryCount := n\<rparr> # taskQueue s"
    and "executing s' = remove_nth i (executing s)"
    and "runningTasks s' = AList.delete (task_id (executing s ! i)) (runningTasks s)"
  shows "tracked s'"
proof -
  let ?t = "executing s ! i"
  have d0: "distinct (map task_id (taskQueue s @ executing s))"
    using assms(1) by (simp add: tracked_def state_ids_def)
  then have d: "distinct (map task_id (taskQueue s @ remove_nth i (executing s)))"
    by (rule distinct_remove_nth)
  have tin: "?t \<in> set (executing s)" using assms(2) by simp
  have "distinct (map task_id (executing s))" using d0 by simp
  then have n1: "task_id ?t \<notin> task_id ` set (remove_nth i (executing s))"
    using assms(2) by (rule nth_not_in_rest)
  have n2: "task_id ?t \<notin> task_id ` set (taskQueue s)" using d0 tin by auto
  have "distinct (state_ids s')" using d n1 n2 assms(3,4) by (simp add: state_ids_def)
  then show ?thesis
    using assms(4,5) delete_nth_keys [OF assms(1,2)] by (simp add: tracked_def)
qed

lemma tracked_settle: "tracked s \<Longrightarrow> tracked (settle i c now s)"
proof (cases "length (executing s) \<le> i")
  case True
  assume "tracked s" then show ?thesis using True by (simp add: settle_def)
next
  case False
  assume v: "tracked s"
  have l: "i < length (executing s)" using False by simp
  let ?t = "executing s ! i"
  let ?s1 = "s\<lparr>executing := remove_nth i (executing s)\<rparr>"
  have ev: "tracked (processQueue (?s1\<lparr>emitted := emitted ?s1 @ [ev],
                     runningTasks := AList.delete (task_id ?t) (runningTasks ?s1)\<rparr>))" for ev
  proof -
    have "tracked (?s1\<lparr>emitted := emitted ?s1 @ [ev],
                     runningTasks := AList.delete (task_id ?t) (runningTasks ?s1)\<rparr>)"
      by (rule remove_tracked [OF v l]) simp_all
    then show ?thesis by (rule processQueue_tracked)
  qed
  have rt: "tracked (?s1\<lparr>taskQueue := ?t\<lparr>retryCount := retryCount ?t + 1\<rparr> # taskQueue ?s1,
                     runningTasks := AList.delete (task_id ?t) (runningTasks ?s1),
                     timers := Suc (timers ?s1)\<rparr>)"
    by (rule tracked_retry [OF v l]) simp_all
  show ?thesis using False ev rt
    by (simp add: settle_def emit_def Let_def split: sum.splits)
qed

lemma tracked_step:
  assumes "tracked s" "set (queued_ids [a]) \<inter> mentioned s = {}" "a \<noteq> StopAll"
  shows "tracked (step s a)"
proof (cases a)
  case (QueueTask x ty opts now)
  let ?n = "new_task x ty opts now"
  have "x \<notin> set (state_ids s)" using assms(2) QueueTask by (simp add: mentioned_def)
  then have "distinct (map task_id (taskQueue s @ [?n]) @ map task_id (executing s))"
    using assms(1) by (auto simp: tracked_def state_ids_def new_task_def)
  then have "distinct (map task_id (sort_key priority (taskQueue s @ [?n])) @ map task_id (executing s))"
    by (simp only: distinct_append distinct_map_sort_key set_map set_sort)
  then have "tracked (s\<lparr>taskQueue := sort_key priority (taskQueue s @ [?n])\<rparr>)"
    using assms(1) by (simp add: tracked_def state_ids_def)
  then show ?thesis using QueueTask by (simp add: queueTask_def processQueue_tracked)
next
  case (Settle i c now)
  then show ?thesis using assms(1) by (simp add: tracked_settle)
next
  case Timer
  have "tracked (s\<lparr>timers := n\<rparr>)" for n
    using assms(1) by (simp add: tracked_def state_ids_def)
  then show ?thesis using Timer assms(1) by (simp add: timer_def processQueue_tracked)
next
  case StopAll
  then show ?thesis using assms(3) by simp
next
  case (ChildWrites name contents)
  then show ?thesis using assms(1) by (simp add: tracked_def state_ids_def)
qed

lemma tracked_run:
  "tracked s \<Longrightarrow> distinct (queued_ids acts) \<Longrightarrow> set (queued_ids acts) \<inter> mentioned s = {} \<Longrightarrow>
   StopAll \<notin> set acts \<Longrightarrow> tracked (run s acts)"
proof (induction acts arbitrary: s)
  case Nil
  then show ?case by (simp add: run_def)
next
  case (Cons a as)
  have split: "queued_ids (a # as) = queued_ids [a] @ queued_ids as" by (rule queued_ids_Cons)
  have 1: "set (queued_ids [a]) \<inter> mentioned s = {}" using Cons.prems(3) split by auto
  have 0: "a \<noteq> StopAll" using Cons.prems(4) by auto
  have 2: "tracked (step s a)" using Cons.prems(1) 1 0 by (rule tracked_step)
  have 3: "distinct (queued_ids as)" using Cons.prems(2) split by simp
  have 4: "set (queued_ids as) \<inter> set (queued_ids [a]) = {}" using Cons.prems(2) split by auto
  have 5: "set (queued_ids as) \<inter> mentioned s = {}" using Cons.prems(3) split by auto
  have 6: "set (queued_ids as) \<inter> mentioned (step s a) = {}"
    using 4 5 mentioned_step [of s a] by blast
  have 7: "StopAll \<notin> set as" using Cons.prems(4) by simp
  have "tracked (run (step s a) as)" using 2 3 6 7 by (rule Cons.IH)
  then show ?case by (simp add: run_def)
qed

lemma tracked_length: "tracked s \<Longrightarrow> length (executing s) = length (runningTasks s)"
proof -
  assume "tracked s"
  then have "map fst (runningTasks s) = map task_id (executing s)" by (simp add: tracked_def)
  then have "length (map fst (runningTasks s)) = length (map task_id (executing s))" by simp
  then show ?thesis by simp
qed

text \<open>
  C1. The constructor sets the limit to 3. Whatever the limit \<open>m\<close> and whatever the sequence
  of enqueue, settlement (completion, failure with retry, terminal failure), timer and
  stop actions, the running set has at most \<open>m\<close> entries (its keys are distinct, so the
  length of the list is the size of the \<open>Map\<close>); \<open>processQueue\<close> changes the
  running set only when its size is strictly below the limit; and when task identifiers
  are never reused and nothing is stopped, the running set holds exactly the tasks whose
  execution is pending, so at most \<open>m\<close> tasks execute at any time.
\<close>

theorem running_set_bounded:
  "maxConcurrentTasks (constructor dir) = 3
   \<and> length (runningTasks (run (constructor dir\<lparr>maxConcurrentTasks := m\<rparr>) acts)) \<le> m
   \<and> distinct (map fst (runningTasks (run (constructor dir\<lparr>maxConcurrentTasks := m\<rparr>) acts)))
   \<and> (runningTasks (processQueue s) \<noteq> runningTasks s \<longrightarrow>
        length (runningTasks s) < maxConcurrentTasks s)
   \<and> (distinct (queued_ids acts) \<and> StopAll \<notin> set acts \<longrightarrow>
        map fst (runningTasks (run (constructor dir\<lparr>maxConcurrentTasks := m\<rparr>) acts))
          = map task_id (executing (run (constructor dir\<lparr>maxConcurrentTasks := m\<rparr>) acts))
        \<and> length (executing (run (constructor dir\<lparr>maxConcurrentTasks := m\<rparr>) acts)) \<le> m)"
proof (intro conjI impI)
  let ?i = "constructor dir\<lparr>maxConcurrentTasks := m\<rparr>"
  show "maxConcurrentTasks (constructor dir) = 3" by (simp add: constructor_def)
  have b: "bounded (run ?i acts)" using constructor_bounded by (rule run_bounded)
  then show le: "length (runningTasks (run ?i acts)) \<le> m" by (simp add: bounded_def)
  show "distinct (map fst (runningTasks (run ?i acts)))"
    by (rule run_keys) (simp add: constructor_def)
  show "length (runningTasks s) < maxConcurrentTasks s"
    if "runningTasks (processQueue s) \<noteq> runningTasks s" using that by (rule processQueue_guard)
  have t0: "tracked ?i" and m0: "mentioned ?i = {}"
    by (simp_all add: tracked_def state_ids_def mentioned_def constructor_def)
  have tr: "tracked (run ?i acts)" if "distinct (queued_ids acts) \<and> StopAll \<notin> set acts"
    using t0 that m0 by (simp add: tracked_run)
  show "map fst (runningTasks (run ?i acts)) = map task_id (executing (run ?i acts))"
    if "distinct (queued_ids acts) \<and> StopAll \<notin> set acts"
    using tr [OF that] by (simp add: tracked_def)
  show "length (executing (run ?i acts)) \<le> m"
    if "distinct (queued_ids acts) \<and> StopAll \<notin> set acts"
    using tracked_length [OF tr [OF that]] le by simp
qed

theorem running_set_bounded_witness:
  "runningTasks (processQueue one_waiting) \<noteq> runningTasks one_waiting
   \<and> length (runningTasks one_waiting) < maxConcurrentTasks one_waiting
   \<and> distinct (queued_ids five_tasks) \<and> StopAll \<notin> set five_tasks
   \<and> length (runningTasks (run (constructor []\<lparr>maxConcurrentTasks := 2\<rparr>) five_tasks)) \<le> 2
   \<and> map fst (runningTasks (run (constructor []\<lparr>maxConcurrentTasks := 2\<rparr>) five_tasks))
       = map task_id (executing (run (constructor []\<lparr>maxConcurrentTasks := 2\<rparr>) five_tasks))
   \<and> length (executing (run (constructor []\<lparr>maxConcurrentTasks := 2\<rparr>) five_tasks)) \<le> 2"
proof -
  have h1: "runningTasks (processQueue one_waiting) \<noteq> runningTasks one_waiting"
    by code_simp
  have h2: "distinct (queued_ids five_tasks) \<and> StopAll \<notin> set five_tasks"
    by code_simp
  show ?thesis
    using h1 h2 running_set_bounded [of "[]" 2 five_tasks one_waiting] by blast
qed

subsection \<open>Retries\<close>

lemma processQueue_cases:
  obtains (idle) "processQueue s = s"
  | (dispatch) x q where "taskQueue s = x # q"
      "processQueue s = s\<lparr>taskQueue := q,
          runningTasks := AList.update (task_id x) x (runningTasks s),
          emitted := emitted s @ [TaskStarted (task_id x) (task_type x)],
          executing := executing s @ [x]\<rparr>"
proof (cases "maxConcurrentTasks s \<le> length (runningTasks s) \<or> taskQueue s = []")
  case True
  then have "processQueue s = s" by (simp add: processQueue_def)
  then show ?thesis by (rule idle)
next
  case False
  then obtain x q where q: "taskQueue s = x # q" by (cases "taskQueue s") auto
  show ?thesis using False q by (intro dispatch [of x q]) (simp_all add: processQueue_def)
qed

lemma absent_processQueue:
  assumes "x \<notin> set (state_ids s)"
  shows "x \<notin> set (state_ids (processQueue s)) \<and> started (processQueue s) x = started s x
         \<and> failed (processQueue s) x = failed s x"
proof (cases s rule: processQueue_cases)
  case idle
  then show ?thesis using assms by simp
next
  case (dispatch y q)
  then show ?thesis using assms by (auto simp: state_ids_def started_def failed_def)
qed

lemma failed_gone:
  assumes "distinct (state_ids s)" "i < length (executing s)"
  shows "task_id (executing s ! i) \<notin> task_id ` set (taskQueue s @ remove_nth i (executing s))"
proof -
  let ?t = "executing s ! i"
  have d0: "distinct (map task_id (taskQueue s @ executing s))"
    using assms(1) by (simp add: state_ids_def)
  have tin: "?t \<in> set (executing s)" using assms(2) by simp
  have "distinct (map task_id (executing s))" using d0 by simp
  then have n1: "task_id ?t \<notin> task_id ` set (remove_nth i (executing s))"
    using assms(2) by (rule nth_not_in_rest)
  have n2: "task_id ?t \<notin> task_id ` set (taskQueue s)" using d0 tin by auto
  show ?thesis using n1 n2 by auto
qed

lemma terminal_failure:
  assumes v: "retry_inv s" and l: "i < length (executing s)"
    and e: "executeTask (executing s ! i) c now = Inl e"
    and nr: "\<not> retryCount (executing s ! i) < maxRetries (executing s ! i)"
  shows "int (started s (task_id (executing s ! i))) = retryCount (executing s ! i) + 1"
    and "0 \<le> maxRetries (executing s ! i) \<Longrightarrow> retryCount (executing s ! i) = maxRetries (executing s ! i)"
    and "failed (settle i c now s) (task_id (executing s ! i)) = 1"
    and "started (settle i c now s) (task_id (executing s ! i)) = started s (task_id (executing s ! i))"
    and "task_id (executing s ! i) \<notin> set (state_ids (settle i c now s))"
proof -
  let ?t = "executing s ! i"
  let ?s2 = "s\<lparr>executing := remove_nth i (executing s),
               emitted := emitted s @ [TaskFailed (task_id ?t) (task_type ?t) e],
               runningTasks := AList.delete (task_id ?t) (runningTasks s)\<rparr>"
  have tin: "?t \<in> set (executing s)" using l by simp
  show c1: "int (started s (task_id ?t)) = retryCount ?t + 1"
    using v tin by (simp add: retry_inv_def)
  show "retryCount ?t = maxRetries ?t" if "0 \<le> maxRetries ?t"
    using v tin that nr by (auto simp: retry_inv_def)
  have st: "settle i c now s = processQueue ?s2"
    using l e nr by (simp add: settle_def emit_def Let_def)
  have d: "distinct (state_ids s)" using v by (simp add: retry_inv_def)
  have gone: "task_id ?t \<notin> set (state_ids ?s2)"
    using failed_gone [OF d l] by (auto simp: state_ids_def)
  have "task_id ?t \<in> set (state_ids s)" using tin by (simp add: state_ids_def)
  then have f0: "failed s (task_id ?t) = 0" using v by (auto simp: retry_inv_def)
  have f2: "failed ?s2 (task_id ?t) = 1" using f0 by (simp add: failed_def)
  have s2: "started ?s2 (task_id ?t) = started s (task_id ?t)" by (simp add: started_def)
  note a = absent_processQueue [OF gone]
  show "failed (settle i c now s) (task_id ?t) = 1" using a f2 st by simp
  show "started (settle i c now s) (task_id ?t) = started s (task_id ?t)" using a s2 st by simp
  show "task_id ?t \<notin> set (state_ids (settle i c now s))" using a st by simp
qed

lemma retry_requeue:
  assumes l: "i < length (executing s)"
    and e: "executeTask (executing s ! i) c now = Inl e"
    and r: "retryCount (executing s ! i) < maxRetries (executing s ! i)"
  shows "taskQueue (settle i c now s)
           = (executing s ! i)\<lparr>retryCount := retryCount (executing s ! i) + 1\<rparr> # taskQueue s"
    and "emitted (settle i c now s) = emitted s"
    and "executing (settle i c now s) = remove_nth i (executing s)"
  using assms by (simp_all add: settle_def Let_def)

lemma absent_settle:
  assumes "x \<notin> set (state_ids s)"
  shows "x \<notin> set (state_ids (settle i c now s)) \<and> started (settle i c now s) x = started s x
         \<and> failed (settle i c now s) x = failed s x"
proof (cases "length (executing s) \<le> i")
  case True
  then show ?thesis using assms by (simp add: settle_def)
next
  case False
  then have l: "i < length (executing s)" by simp
  let ?t = "executing s ! i"
  let ?s1 = "s\<lparr>executing := remove_nth i (executing s)\<rparr>"
  have "task_id ?t \<in> set (state_ids s)" using l by (simp add: state_ids_def)
  then have ne: "x \<noteq> task_id ?t" using assms by auto
  have sub: "set (remove_nth i (executing s)) \<subseteq> set (executing s)" by (rule set_remove_nth)
  show ?thesis
  proof (cases "executeTask ?t c now")
    case (Inr r)
    let ?s2 = "?s1\<lparr>emitted := emitted ?s1 @ [TaskCompleted (task_id ?t) (task_type ?t) r],
                     runningTasks := AList.delete (task_id ?t) (runningTasks ?s1)\<rparr>"
    have 1: "x \<notin> set (state_ids ?s2) \<and> started ?s2 x = started s x \<and> failed ?s2 x = failed s x"
      using assms sub by (auto simp: state_ids_def started_def failed_def)
    have "settle i c now s = processQueue ?s2"
      using l Inr by (simp add: settle_def emit_def Let_def)
    then show ?thesis using 1 absent_processQueue [of x ?s2] by simp
  next
    case (Inl e)
    show ?thesis
    proof (cases "retryCount ?t < maxRetries ?t")
      case True
      then show ?thesis using l Inl assms sub ne
        by (auto simp: settle_def Let_def state_ids_def started_def failed_def)
    next
      case False
      let ?s2 = "?s1\<lparr>emitted := emitted ?s1 @ [TaskFailed (task_id ?t) (task_type ?t) e],
                     runningTasks := AList.delete (task_id ?t) (runningTasks ?s1)\<rparr>"
      have 1: "x \<notin> set (state_ids ?s2) \<and> started ?s2 x = started s x \<and> failed ?s2 x = failed s x"
        using assms sub ne by (auto simp: state_ids_def started_def failed_def)
      have "settle i c now s = processQueue ?s2"
        using l Inl False by (simp add: settle_def emit_def Let_def)
      then show ?thesis using 1 absent_processQueue [of x ?s2] by simp
    qed
  qed
qed

lemma absent_step:
  assumes "x \<notin> set (state_ids s)" "x \<notin> set (queued_ids [a])"
  shows "x \<notin> set (state_ids (step s a)) \<and> started (step s a) x = started s x
         \<and> failed (step s a) x = failed s x"
proof (cases a)
  case (QueueTask y ty opts now)
  let ?s2 = "s\<lparr>taskQueue := sort_key priority (taskQueue s @ [new_task y ty opts now])\<rparr>"
  have "x \<noteq> y" using assms(2) QueueTask by simp
  then have 1: "x \<notin> set (state_ids ?s2) \<and> started ?s2 x = started s x \<and> failed ?s2 x = failed s x"
    using assms(1) by (auto simp: state_ids_def started_def failed_def new_task_def)
  show ?thesis using QueueTask 1 absent_processQueue [of x ?s2] by (simp add: queueTask_def)
next
  case (Settle i c now)
  then show ?thesis using absent_settle [OF assms(1)] by simp
next
  case Timer
  show ?thesis
  proof (cases "timers s = 0")
    case True
    then show ?thesis using Timer assms(1) by (simp add: timer_def)
  next
    case False
    let ?s2 = "s\<lparr>timers := timers s - 1\<rparr>"
    have 1: "x \<notin> set (state_ids ?s2) \<and> started ?s2 x = started s x \<and> failed ?s2 x = failed s x"
      using assms(1) by (simp add: state_ids_def started_def failed_def)
    show ?thesis using Timer False 1 absent_processQueue [of x ?s2] by (simp add: timer_def)
  qed
next
  case StopAll
  then show ?thesis using assms(1)
    by (auto simp: stopAllTasks_def state_ids_def started_def failed_def)
next
  case (ChildWrites name contents)
  then show ?thesis using assms(1) by (simp add: state_ids_def started_def failed_def)
qed

lemma absent_run:
  "x \<notin> set (state_ids s) \<Longrightarrow> x \<notin> set (queued_ids acts) \<Longrightarrow>
   x \<notin> set (state_ids (run s acts)) \<and> started (run s acts) x = started s x
   \<and> failed (run s acts) x = failed s x"
proof (induction acts arbitrary: s)
  case Nil
  then show ?case by (simp add: run_def)
next
  case (Cons a as)
  have split: "queued_ids (a # as) = queued_ids [a] @ queued_ids as" by (rule queued_ids_Cons)
  have 1: "x \<notin> set (queued_ids [a])" and 2: "x \<notin> set (queued_ids as)"
    using Cons.prems(2) split by auto
  note st = absent_step [OF Cons.prems(1) 1]
  have 3: "x \<notin> set (state_ids (step s a))" using st by simp
  have "run s (a # as) = run (step s a) as" by (simp add: run_def)
  then show ?case using Cons.IH [OF 3 2] st by simp
qed

lemma constructor_retry_inv: "retry_inv (constructor dir\<lparr>maxConcurrentTasks := m\<rparr>)"
  by (simp add: retry_inv_def constructor_def state_ids_def started_def failed_def)

lemma constructor_mentioned: "mentioned (constructor dir\<lparr>maxConcurrentTasks := m\<rparr>) = {}"
  by (simp add: mentioned_def constructor_def state_ids_def)

text \<open>
  C3, as stated, fails: a task queued with the override \<open>maxRetries\<close> -1 has \<open>maxRetries\<close> -1,
  which \<open>options.maxRetries || 3\<close> keeps, and \<open>retryCount\<close> 0, above it, from the start; its
  first failure is terminal.
\<close>

theorem negative_maxRetries_exceeded:
  "map retryCount (executing (run (constructor []) [hd negative_retries])) = [0]
   \<and> map maxRetries (executing (run (constructor []) [hd negative_retries])) = [- 1]
   \<and> emitted (run (constructor []) negative_retries)
       = [TaskStarted ''n'' ''health'',
          TaskFailed ''n'' ''health'' (TaskFailedWithCode (Some 1) ''failed'')]"
  by code_simp

text \<open>
  C3, amended. In every state \<open>s\<close> reached from a new orchestrator by a sequence of actions with
  unique task identifiers: \<open>retryCount\<close> never exceeds a \<open>maxRetries\<close> that is not negative; a
  waiting task has been started \<open>retryCount\<close> times and an executing one \<open>retryCount + 1\<close>
  times; a failed execution with \<open>retryCount < maxRetries\<close> puts the task back at the head of
  the queue with \<open>retryCount + 1\<close> and emits nothing; a failed execution with
  \<open>retryCount = maxRetries\<close> happens at the attempt number \<open>maxRetries + 1\<close> (the third for
  \<open>maxRetries\<close> 2, with \<open>retryCount\<close> 2), emits the one \<open>taskFailed\<close> of the task and leaves
  it neither waiting nor executing; and a task that is neither waiting nor executing is
  never waiting, executing, started or failed again, whatever follows. A task begins with
  \<open>retryCount\<close> 0 and with the \<open>maxRetries\<close> of its override, negative or not, unless that is
  0, which gives 3.
\<close>

theorem retry_exhaustion:
  assumes "distinct (queued_ids acts)"
    and "s = run (constructor dir\<lparr>maxConcurrentTasks := m\<rparr>) acts"
  shows "(\<forall>t\<in>set (taskQueue s @ executing s). 0 \<le> maxRetries t \<longrightarrow> retryCount t \<le> maxRetries t)
    \<and> (\<forall>t\<in>set (taskQueue s). int (started s (task_id t)) = retryCount t)
    \<and> (\<forall>t\<in>set (executing s). int (started s (task_id t)) = retryCount t + 1)
    \<and> (\<forall>x. failed s x \<le> 1 \<and> (0 < failed s x \<longrightarrow> x \<notin> set (state_ids s)))
    \<and> (i < length (executing s) \<and> executeTask (executing s ! i) c now = Inl e
        \<and> retryCount (executing s ! i) < maxRetries (executing s ! i) \<longrightarrow>
          taskQueue (settle i c now s)
            = (executing s ! i)\<lparr>retryCount := retryCount (executing s ! i) + 1\<rparr> # taskQueue s
          \<and> emitted (settle i c now s) = emitted s)
    \<and> (i < length (executing s) \<and> executeTask (executing s ! i) c now = Inl e
        \<and> \<not> retryCount (executing s ! i) < maxRetries (executing s ! i) \<longrightarrow>
          (0 \<le> maxRetries (executing s ! i) \<longrightarrow>
             retryCount (executing s ! i) = maxRetries (executing s ! i)
             \<and> int (started s (task_id (executing s ! i))) = maxRetries (executing s ! i) + 1)
          \<and> failed (settle i c now s) (task_id (executing s ! i)) = 1
          \<and> started (settle i c now s) (task_id (executing s ! i))
              = started s (task_id (executing s ! i))
          \<and> task_id (executing s ! i) \<notin> set (state_ids (settle i c now s)))
    \<and> (x \<notin> set (state_ids s') \<and> x \<notin> set (queued_ids acts') \<longrightarrow>
          x \<notin> set (state_ids (run s' acts')) \<and> started (run s' acts') x = started s' x
          \<and> failed (run s' acts') x = failed s' x)
    \<and> maxRetries (new_task taskId taskType (opts\<lparr>opt_maxRetries := Some n\<rparr>) clock)
          = (if n = 0 then 3 else n)
    \<and> retryCount (new_task taskId taskType opts clock) = 0"
proof -
  have v: "retry_inv s"
    unfolding assms(2) using constructor_retry_inv assms(1)
    by (rule retry_inv_run) (simp add: constructor_mentioned)
  have 1: "\<forall>t\<in>set (taskQueue s @ executing s). 0 \<le> maxRetries t \<longrightarrow> retryCount t \<le> maxRetries t"
    and 2: "\<forall>t\<in>set (taskQueue s). int (started s (task_id t)) = retryCount t"
    and 3: "\<forall>t\<in>set (executing s). int (started s (task_id t)) = retryCount t + 1"
    and 4: "\<forall>x. failed s x \<le> 1 \<and> (0 < failed s x \<longrightarrow> x \<notin> set (state_ids s))"
    using v unfolding retry_inv_def by blast+
  have 5: "taskQueue (settle i c now s)
            = (executing s ! i)\<lparr>retryCount := retryCount (executing s ! i) + 1\<rparr> # taskQueue s
          \<and> emitted (settle i c now s) = emitted s"
    if "i < length (executing s) \<and> executeTask (executing s ! i) c now = Inl e
        \<and> retryCount (executing s ! i) < maxRetries (executing s ! i)"
    using that retry_requeue [of i s c now e] by blast
  have 6: "(0 \<le> maxRetries (executing s ! i) \<longrightarrow>
             retryCount (executing s ! i) = maxRetries (executing s ! i)
             \<and> int (started s (task_id (executing s ! i))) = maxRetries (executing s ! i) + 1)
          \<and> failed (settle i c now s) (task_id (executing s ! i)) = 1
          \<and> started (settle i c now s) (task_id (executing s ! i))
              = started s (task_id (executing s ! i))
          \<and> task_id (executing s ! i) \<notin> set (state_ids (settle i c now s))"
    if h: "i < length (executing s) \<and> executeTask (executing s ! i) c now = Inl e
        \<and> \<not> retryCount (executing s ! i) < maxRetries (executing s ! i)"
  proof -
    have l: "i < length (executing s)" and e: "executeTask (executing s ! i) c now = Inl e"
      and nr: "\<not> retryCount (executing s ! i) < maxRetries (executing s ! i)" using h by simp_all
    note t = terminal_failure [OF v l e nr]
    show ?thesis using t(1) t(2) t(3) t(4) t(5) by simp
  qed
  have 7: "x \<notin> set (state_ids (run s' acts')) \<and> started (run s' acts') x = started s' x
          \<and> failed (run s' acts') x = failed s' x"
    if "x \<notin> set (state_ids s') \<and> x \<notin> set (queued_ids acts')"
    using that absent_run [of x s' acts'] by blast
  have 8: "maxRetries (new_task taskId taskType (opts\<lparr>opt_maxRetries := Some n\<rparr>) clock)
          = (if n = 0 then 3 else n)"
    and 9: "retryCount (new_task taskId taskType opts clock) = 0"
    by (simp_all add: new_task_def)
  show ?thesis using 1 2 3 4 5 6 7 8 9 by blast
qed

theorem retry_exhaustion_witness:
  "distinct (queued_ids always_failing)
   \<and> last_attempt = run (constructor []\<lparr>maxConcurrentTasks := 3\<rparr>) always_failing
   \<and> 0 < length (executing last_attempt)
   \<and> executeTask (executing last_attempt ! 0) (Errored ''spawn'' 5) 300040 = Inl (ChildError ''spawn'')
   \<and> maxRetries (executing last_attempt ! 0) = 2
   \<and> retryCount (executing last_attempt ! 0) = 2
   \<and> started last_attempt ''t'' = 3
   \<and> emitted (settle 0 (Errored ''spawn'' 5) 300040 last_attempt)
       = [TaskStarted ''t'' ''health'', TaskStarted ''t'' ''health'', TaskStarted ''t'' ''health'',
          TaskFailed ''t'' ''health'' (ChildError ''spawn'')]
   \<and> failed (settle 0 (Errored ''spawn'' 5) 300040 last_attempt) ''t'' = 1
   \<and> ''t'' \<notin> set (state_ids (settle 0 (Errored ''spawn'' 5) 300040 last_attempt))
   \<and> ''t'' \<notin> set (queued_ids afterwards)
   \<and> ''t'' \<notin> set (state_ids (run (settle 0 (Errored ''spawn'' 5) 300040 last_attempt) afterwards))
   \<and> started (run (settle 0 (Errored ''spawn'' 5) 300040 last_attempt) afterwards) ''t'' = 3
   \<and> failed (run (settle 0 (Errored ''spawn'' 5) 300040 last_attempt) afterwards) ''t'' = 1"
proof -
  let ?c = "Errored ''spawn'' 5"
  have h1: "distinct (queued_ids always_failing)" by code_simp
  have h2: "last_attempt = run (constructor []\<lparr>maxConcurrentTasks := 3\<rparr>) always_failing"
    by (simp add: last_attempt_def constructor_def)
  have h3: "0 < length (executing last_attempt)" by code_simp
  have h4: "executeTask (executing last_attempt ! 0) ?c 300040 = Inl (ChildError ''spawn'')"
    by code_simp
  have h5: "maxRetries (executing last_attempt ! 0) = 2" by code_simp
  have h6: "\<not> retryCount (executing last_attempt ! 0) < maxRetries (executing last_attempt ! 0)"
    by code_simp
  have h7: "task_id (executing last_attempt ! 0) = ''t''" by code_simp
  have h8: "''t'' \<notin> set (queued_ids afterwards)" by code_simp
  have h9: "emitted (settle 0 ?c 300040 last_attempt)
       = [TaskStarted ''t'' ''health'', TaskStarted ''t'' ''health'', TaskStarted ''t'' ''health'',
          TaskFailed ''t'' ''health'' (ChildError ''spawn'')]" by code_simp
  note T = retry_exhaustion [OF h1 h2, of 0 ?c 300040 "ChildError ''spawn''" "''t''"
      "settle 0 ?c 300040 last_attempt" afterwards]
  have a: "retryCount (executing last_attempt ! 0) = 2"
    and b: "int (started last_attempt ''t'') = 3"
    and c: "failed (settle 0 ?c 300040 last_attempt) ''t'' = 1"
    and d: "started (settle 0 ?c 300040 last_attempt) ''t'' = started last_attempt ''t''"
    and e: "''t'' \<notin> set (state_ids (settle 0 ?c 300040 last_attempt))"
    using T h3 h4 h5 h6 h7 by simp_all
  have f: "''t'' \<notin> set (state_ids (run (settle 0 ?c 300040 last_attempt) afterwards))"
    and g: "started (run (settle 0 ?c 300040 last_attempt) afterwards) ''t''
              = started (settle 0 ?c 300040 last_attempt) ''t''"
    and h: "failed (run (settle 0 ?c 300040 last_attempt) afterwards) ''t''
              = failed (settle 0 ?c 300040 last_attempt) ''t''"
    using T e h8 by simp_all
  have b': "started last_attempt ''t'' = 3" using b by simp
  show ?thesis using h1 h2 h3 h4 h5 h8 h9 a b' c d e f g h by simp
qed

subsection \<open>Unknown task types\<close>

text \<open>
  C4, as stated, fails: after the first attempt of a task of unknown type has failed, no
  \<open>taskFailed\<close> has been emitted, the task waits in the queue again with \<open>retryCount\<close> 1, and
  when the retry timer fires it is started a second time, with \<open>retryCount\<close> 1.
\<close>

theorem unknown_type_is_retried:
  "failed (run (constructor []) bogus_once) ''b'' = 0
   \<and> map task_id (taskQueue (run (constructor []) bogus_once)) = [''b'']
   \<and> map retryCount (taskQueue (run (constructor []) bogus_once)) = [1]
   \<and> emitted (run (constructor []) (bogus_once @ [Timer]))
       = [TaskStarted ''b'' ''bogus'', TaskStarted ''b'' ''bogus'']
   \<and> map retryCount (executing (run (constructor []) (bogus_once @ [Timer]))) = [1]"
  by code_simp

lemma unknown_type_rejected:
  "command_of (task_type t) = None \<Longrightarrow> executeTask t c now = Inl (UnknownTaskType (task_type t))"
  by (simp add: executeTask_def)

text \<open>
  C4, amended. For a task of a type that \<open>executeTask\<close> does not know, every execution
  attempt fails at once with the unknown-task-type error, whatever a child process would
  do; the failure is retried like any other: with the default \<open>maxRetries\<close> of 3 the task
  is started four times, is put back with \<open>retryCount\<close> 1, 2 and 3, and only its fourth
  failure is emitted as \<open>taskFailed\<close>, after which it neither waits nor executes.
\<close>

theorem unknown_type_fails_after_retries:
  assumes "command_of ty = None" and "opt_maxRetries opts = None"
  shows "executeTask (new_task x ty opts now) c n = Inl (UnknownTaskType ty)
   \<and> emitted (run (constructor dir)
        [QueueTask x ty opts now, Settle 0 c1 n1, Timer, Settle 0 c2 n2, Timer,
         Settle 0 c3 n3, Timer, Settle 0 c4 n4])
      = [TaskStarted x ty, TaskStarted x ty, TaskStarted x ty, TaskStarted x ty,
         TaskFailed x ty (UnknownTaskType ty)]
   \<and> map retryCount (taskQueue (run (constructor dir)
        [QueueTask x ty opts now, Settle 0 c1 n1, Timer, Settle 0 c2 n2, Timer,
         Settle 0 c3 n3])) = [3]
   \<and> taskQueue (run (constructor dir)
        [QueueTask x ty opts now, Settle 0 c1 n1, Timer, Settle 0 c2 n2, Timer,
         Settle 0 c3 n3, Timer, Settle 0 c4 n4]) = []
   \<and> executing (run (constructor dir)
        [QueueTask x ty opts now, Settle 0 c1 n1, Timer, Settle 0 c2 n2, Timer,
         Settle 0 c3 n3, Timer, Settle 0 c4 n4]) = []"
  using assms
  by (simp add: run_def queueTask_def processQueue_def settle_def emit_def timer_def
      executeTask_def new_task_def constructor_def remove_nth_def Let_def)

theorem unknown_type_fails_after_retries_witness:
  "command_of ''healthCheck'' = None \<and> opt_maxRetries no_options = None
   \<and> emitted (run (constructor [])
        [QueueTask ''h'' ''healthCheck'' no_options 0, Settle 0 Hung 1, Timer, Settle 0 Hung 2, Timer,
         Settle 0 Hung 3, Timer, Settle 0 Hung 4])
      = [TaskStarted ''h'' ''healthCheck'', TaskStarted ''h'' ''healthCheck'',
         TaskStarted ''h'' ''healthCheck'', TaskStarted ''h'' ''healthCheck'',
         TaskFailed ''h'' ''healthCheck'' (UnknownTaskType ''healthCheck'')]"
proof -
  have h1: "command_of ''healthCheck'' = None" by code_simp
  have h2: "opt_maxRetries no_options = None" by code_simp
  show ?thesis
    using h1 h2 unknown_type_fails_after_retries [OF h1 h2, of "''h''" 0 Hung 0 "[]" Hung 1 Hung 2 Hung 3 Hung 4]
    by simp
qed

subsection \<open>Dispatch order\<close>

lemma sort_key_append_sorted: "sort_key f (sort_key f xs @ ys) = sort_key f (xs @ ys)"
proof (rule properties_for_sort_key [symmetric])
  show "mset (sort_key f (sort_key f xs @ ys)) = mset (xs @ ys)" by simp
next
  fix k
  have "filter (\<lambda>x. f k = f x) (sort_key f (sort_key f xs @ ys))
        = filter (\<lambda>x. f x = f k) (sort_key f (sort_key f xs @ ys))"
    by (rule filter_cong) auto
  also have "\<dots> = filter (\<lambda>x. f x = f k) (sort_key f xs @ ys)" by (rule sort_key_stable)
  also have "\<dots> = filter (\<lambda>x. f x = f k) (sort_key f xs) @ filter (\<lambda>x. f x = f k) ys" by simp
  also have "\<dots> = filter (\<lambda>x. f x = f k) xs @ filter (\<lambda>x. f x = f k) ys"
    by (simp only: sort_key_stable)
  also have "\<dots> = filter (\<lambda>x. f x = f k) (xs @ ys)" by simp
  also have "\<dots> = filter (\<lambda>x. f k = f x) (xs @ ys)" by (rule filter_cong) auto
  finally show "filter (\<lambda>x. f k = f x) (sort_key f (sort_key f xs @ ys))
        = filter (\<lambda>x. f k = f x) (xs @ ys)" .
next
  show "sorted (map f (sort_key f (sort_key f xs @ ys)))" by simp
qed

lemma queueTask_busy:
  "maxConcurrentTasks s \<le> length (runningTasks s) \<Longrightarrow>
   queueTask x ty opts now s
     = s\<lparr>taskQueue := sort_key priority (taskQueue s @ [new_task x ty opts now])\<rparr>"
  by (simp add: queueTask_def processQueue_def)

lemma enqueue_busy:
  "maxConcurrentTasks s \<le> length (runningTasks s) \<Longrightarrow>
   step s (enqueue r) = s\<lparr>taskQueue := sort_key priority (taskQueue s @ [task_of r])\<rparr>"
  by (cases r) (simp add: queueTask_busy)

lemma run_enqueue_busy:
  "maxConcurrentTasks s \<le> length (runningTasks s) \<Longrightarrow> sorted (map priority (taskQueue s)) \<Longrightarrow>
   run s (map enqueue rs) = s\<lparr>taskQueue := sort_key priority (taskQueue s @ map task_of rs)\<rparr>"
proof (induction rs arbitrary: s)
  case Nil
  then show ?case by (simp add: run_def sort_key_id_if_sorted)
next
  case (Cons r rs)
  let ?s1 = "s\<lparr>taskQueue := sort_key priority (taskQueue s @ [task_of r])\<rparr>"
  have b: "maxConcurrentTasks ?s1 \<le> length (runningTasks ?s1)" using Cons.prems by simp
  have so: "sorted (map priority (taskQueue ?s1))" by simp
  have "run s (map enqueue (r # rs)) = run (step s (enqueue r)) (map enqueue rs)"
    by (simp add: run_def)
  also have "\<dots> = run ?s1 (map enqueue rs)" using Cons.prems by (simp add: enqueue_busy)
  also have "\<dots> = ?s1\<lparr>taskQueue := sort_key priority (taskQueue ?s1 @ map task_of rs)\<rparr>"
    using b so by (rule Cons.IH)
  also have "\<dots> = s\<lparr>taskQueue := sort_key priority (taskQueue s @ map task_of (r # rs))\<rparr>"
    by (simp add: sort_key_append_sorted)
  finally show ?case .
qed

lemma runnable_succeeds:
  "runnable t \<Longrightarrow>
   executeTask t (Closed (Some 0) out err 0) now
     = Inr \<lparr>success = True, output_text = out, duration = now - createdAt t\<rparr>"
  by (auto simp: runnable_def executeTask_def timer_delay_def)

lemma dispatch_order_append:
  "emitted s' = emitted s @ es \<Longrightarrow> dispatch_order s' = dispatch_order s @ concat (map started_id es)"
  by (simp add: dispatch_order_def)

text \<open>One task executes, concurrency is 1: the queue is drained in its order.\<close>

lemma drain:
  "maxConcurrentTasks s = 1 \<Longrightarrow> runningTasks s = [(task_id x, x)] \<Longrightarrow> executing s = [x] \<Longrightarrow>
   runnable x \<Longrightarrow> \<forall>t\<in>set (taskQueue s). runnable t \<Longrightarrow>
   dispatch_order (run s (replicate (Suc (length (taskQueue s))) (Settle 0 (Closed (Some 0) out err 0) now)))
     = dispatch_order s @ map task_id (taskQueue s)"
proof (induction "taskQueue s" arbitrary: s x)
  case Nil
  let ?c = "Closed (Some 0) out err 0"
  have "settle 0 ?c now s
        = s\<lparr>executing := [], emitted := emitted s @ [TaskCompleted (task_id x) (task_type x)
              \<lparr>success = True, output_text = out, duration = now - createdAt x\<rparr>],
             runningTasks := []\<rparr>"
    using Nil.prems Nil.hyps [symmetric] runnable_succeeds [of x out err now]
    by (simp add: settle_def emit_def processQueue_def remove_nth_def)
  then show ?case using Nil.hyps [symmetric] by (simp add: run_def dispatch_order_def)
next
  case (Cons y q)
  let ?c = "Closed (Some 0) out err 0"
  let ?s1 = "s\<lparr>executing := [y], emitted := emitted s @ [TaskCompleted (task_id x) (task_type x)
              \<lparr>success = True, output_text = out, duration = now - createdAt x\<rparr>,
              TaskStarted (task_id y) (task_type y)],
             runningTasks := [(task_id y, y)], taskQueue := q\<rparr>"
  have st: "settle 0 ?c now s = ?s1"
    using Cons.prems Cons.hyps(2) [symmetric] runnable_succeeds [of x out err now]
    by (simp add: settle_def emit_def processQueue_def remove_nth_def)
  have ry: "runnable y" and rq: "\<forall>t\<in>set (taskQueue ?s1). runnable t"
    using Cons.prems(5) Cons.hyps(2) [symmetric] by simp_all
  have ih: "dispatch_order (run ?s1 (replicate (Suc (length (taskQueue ?s1))) (Settle 0 ?c now)))
     = dispatch_order ?s1 @ map task_id (taskQueue ?s1)"
    by (rule Cons.hyps(1) [of ?s1 y]) (use Cons.prems ry rq in simp_all)
  have "run s (replicate (Suc (length (taskQueue s))) (Settle 0 ?c now))
        = run ?s1 (replicate (Suc (length q)) (Settle 0 ?c now))"
    using st Cons.hyps(2) [symmetric] by (simp add: run_def)
  then show ?case using ih Cons.hyps(2) [symmetric] by (simp add: dispatch_order_def)
qed

lemma run_append: "run s (as @ bs) = run (run s as) bs"
  by (simp add: run_def)

lemma first_dispatched_at_once:
  "step (constructor dir\<lparr>maxConcurrentTasks := 1\<rparr>) (enqueue r)
   = (constructor dir)\<lparr>maxConcurrentTasks := 1, runningTasks := [(task_id (task_of r), task_of r)],
        emitted := [TaskStarted (task_id (task_of r)) (task_type (task_of r))],
        executing := [task_of r]\<rparr>"
  by (cases r) (simp add: queueTask_def processQueue_def constructor_def Let_def)

text \<open>
  C2, as stated, fails: on an idle orchestrator of concurrency 1, tasks queued with
  priorities 5, 1, 3 are dispatched in the order 5, 1, 3, since \<open>queueTask\<close> itself
  dispatches the first one before the others are queued.
\<close>

theorem first_task_not_ordered:
  "dispatch_order (run (constructor []\<lparr>maxConcurrentTasks := 1\<rparr>)
      (map enqueue priority_5_1_3 @ replicate 3 (Settle 0 (Closed (Some 0) [] [] 0) 10)))
   = [''a'', ''b'', ''c'']
   \<and> map (priority \<circ> task_of) priority_5_1_3 = [5, 1, 3]"
  by code_simp

text \<open>
  C2, amended. With concurrency 1 and tasks that all complete, the first task queued on an
  idle orchestrator is dispatched at once, whatever its priority; the tasks queued while it
  executes are dispatched in the order of the stable sort of their enqueue order by
  \<open>priority\<close>: ascending priority, and enqueue order among tasks of equal priority.
\<close>

theorem waiting_tasks_by_priority:
  assumes "\<forall>r\<in>set (r0 # rs). runnable (task_of r)"
  shows "dispatch_order (run (constructor dir\<lparr>maxConcurrentTasks := 1\<rparr>)
            (map enqueue (r0 # rs)
             @ replicate (Suc (length rs)) (Settle 0 (Closed (Some 0) out err 0) now)))
          = map task_id (task_of r0 # sort_key priority (map task_of rs))
       \<and> sorted (map priority (sort_key priority (map task_of rs)))
       \<and> filter (\<lambda>t. priority t = p) (sort_key priority (map task_of rs))
           = filter (\<lambda>t. priority t = p) (map task_of rs)"
proof (intro conjI)
  let ?i = "constructor dir\<lparr>maxConcurrentTasks := 1\<rparr>"
  let ?c = "Settle 0 (Closed (Some 0) out err 0) now"
  let ?t0 = "task_of r0"
  let ?s1 = "(constructor dir)\<lparr>maxConcurrentTasks := 1, runningTasks := [(task_id ?t0, ?t0)],
        emitted := [TaskStarted (task_id ?t0) (task_type ?t0)], executing := [?t0]\<rparr>"
  let ?s2 = "?s1\<lparr>taskQueue := sort_key priority (taskQueue ?s1 @ map task_of rs)\<rparr>"
  have q1: "taskQueue ?s1 = []" by (simp add: constructor_def)
  have "run ?i (map enqueue (r0 # rs)) = run (step ?i (enqueue r0)) (map enqueue rs)"
    by (simp add: run_def)
  also have "\<dots> = run ?s1 (map enqueue rs)" by (simp only: first_dispatched_at_once)
  also have "\<dots> = ?s2" by (rule run_enqueue_busy) (simp_all add: constructor_def)
  finally have r: "run ?i (map enqueue (r0 # rs)) = ?s2" .
  have q2: "taskQueue ?s2 = sort_key priority (map task_of rs)" by (simp add: constructor_def)
  have len: "length (taskQueue ?s2) = length rs" by (simp add: constructor_def)
  have d: "dispatch_order (run ?s2 (replicate (Suc (length (taskQueue ?s2))) ?c))
        = dispatch_order ?s2 @ map task_id (taskQueue ?s2)"
    by (rule drain [of ?s2 ?t0]) (use assms in \<open>auto simp: constructor_def\<close>)
  have "run ?i (map enqueue (r0 # rs) @ replicate (Suc (length rs)) ?c)
        = run ?s2 (replicate (Suc (length (taskQueue ?s2))) ?c)"
    by (simp only: run_append r len)
  then show "dispatch_order (run ?i (map enqueue (r0 # rs) @ replicate (Suc (length rs)) ?c))
          = map task_id (?t0 # sort_key priority (map task_of rs))"
    using d q2 by (simp add: dispatch_order_def)
  show "sorted (map priority (sort_key priority (map task_of rs)))" by simp
  show "filter (\<lambda>t. priority t = p) (sort_key priority (map task_of rs))
           = filter (\<lambda>t. priority t = p) (map task_of rs)" by (rule sort_key_stable)
qed

theorem waiting_tasks_by_priority_witness:
  "list_all (\<lambda>r. runnable (task_of r)) ties
   \<and> dispatch_order (run (constructor []\<lparr>maxConcurrentTasks := 1\<rparr>)
        (map enqueue ties @ replicate 6 (Settle 0 (Closed (Some 0) [] [] 0) 10)))
      = [''z'', ''b'', ''d'', ''c'', ''a'', ''e'']
   \<and> map (priority \<circ> task_of) ties = [5, 5, 1, 3, 1, 5]"
proof -
  have h: "list_all (\<lambda>r. runnable (task_of r)) ties" by code_simp
  then have h': "\<forall>r\<in>set (hd ties # tl ties). runnable (task_of r)"
    by (simp add: ties_def list_all_iff)
  have e: "hd ties # tl ties = ties" by (simp add: ties_def)
  have l: "Suc (length (tl ties)) = 6" by (simp add: ties_def)
  have o: "map task_id (task_of (hd ties) # sort_key priority (map task_of (tl ties)))
           = [''z'', ''b'', ''d'', ''c'', ''a'', ''e'']" by code_simp
  have p: "map (priority \<circ> task_of) ties = [5, 5, 1, 3, 1, 5]" by code_simp
  note T = waiting_tasks_by_priority [OF h', of "[]" "[]" "[]" 10 0]
  have "dispatch_order (run (constructor []\<lparr>maxConcurrentTasks := 1\<rparr>)
        (map enqueue (hd ties # tl ties)
         @ replicate (Suc (length (tl ties))) (Settle 0 (Closed (Some 0) [] [] 0) 10)))
      = [''z'', ''b'', ''d'', ''c'', ''a'', ''e'']"
    using T o by (simp only:)
  then have "dispatch_order (run (constructor []\<lparr>maxConcurrentTasks := 1\<rparr>)
        (map enqueue ties @ replicate 6 (Settle 0 (Closed (Some 0) [] [] 0) 10)))
      = [''z'', ''b'', ''d'', ''c'', ''a'', ''e'']"
    by (simp only: e l)
  then show ?thesis using h p by simp
qed

subsection \<open>Priority at dispatch\<close>

lemma sorted_map_tl: "sorted (map f xs) \<Longrightarrow> sorted (map f (tl xs))"
  by (cases xs) simp_all

lemma processQueue_by_priority: "by_priority s \<Longrightarrow> by_priority (processQueue s)"
  by (cases s rule: processQueue_cases) (auto simp: by_priority_def)

lemma queueTask_by_priority: "by_priority (queueTask x ty opts now s)"
proof -
  have "by_priority (s\<lparr>taskQueue := sort_key priority (taskQueue s @ [new_task x ty opts now])\<rparr>)"
    by (simp add: by_priority_def)
  then show ?thesis by (simp add: queueTask_def processQueue_by_priority)
qed

lemma settle_by_priority:
  assumes "by_priority s" "\<not> is_retry s (Settle i c now)"
  shows "by_priority (settle i c now s)"
proof (cases "length (executing s) \<le> i")
  case True
  then show ?thesis using assms(1) by (simp add: settle_def)
next
  case False
  let ?t = "executing s ! i"
  let ?s1 = "s\<lparr>executing := remove_nth i (executing s)\<rparr>"
  have p: "by_priority (processQueue (?s1\<lparr>emitted := emitted ?s1 @ [ev], runningTasks := r\<rparr>))" for ev r
    using assms(1) by (intro processQueue_by_priority) (simp add: by_priority_def)
  show ?thesis
  proof (cases "executeTask ?t c now")
    case (Inr r)
    then show ?thesis using False p by (simp add: settle_def emit_def Let_def)
  next
    case (Inl e)
    then have "\<not> retryCount ?t < maxRetries ?t" using assms(2) False by simp
    then show ?thesis using False Inl p by (simp add: settle_def emit_def Let_def)
  qed
qed

lemma step_by_priority:
  assumes "by_priority s" "\<not> is_retry s a"
  shows "by_priority (step s a)"
proof (cases a)
  case (QueueTask x ty opts now)
  then show ?thesis by (simp add: queueTask_by_priority)
next
  case (Settle i c now)
  then show ?thesis using assms by (simp add: settle_by_priority)
next
  case Timer
  have "by_priority (s\<lparr>timers := n\<rparr>)" for n using assms(1) by (simp add: by_priority_def)
  then show ?thesis using Timer assms(1) by (simp add: timer_def processQueue_by_priority)
next
  case StopAll
  then show ?thesis by (simp add: stopAllTasks_def by_priority_def)
next
  case (ChildWrites name contents)
  then show ?thesis using assms(1) by (simp add: by_priority_def)
qed

lemma run_by_priority: "by_priority s \<Longrightarrow> retry_free s acts \<Longrightarrow> by_priority (run s acts)"
proof (induction acts arbitrary: s)
  case Nil
  then show ?case by (simp add: run_def)
next
  case (Cons a as)
  have 1: "by_priority (step s a)" using Cons.prems by (simp add: step_by_priority)
  have 2: "retry_free (step s a) as" using Cons.prems(2) by simp
  have "run s (a # as) = run (step s a) as" by (simp add: run_def)
  then show ?case using Cons.IH [OF 1 2] by simp
qed

lemma head_minimal:
  "by_priority s \<Longrightarrow> t \<in> set (taskQueue s) \<Longrightarrow> priority (hd (taskQueue s)) \<le> priority t"
  by (cases "taskQueue s") (auto simp: by_priority_def)

lemma processQueue_head:
  "length (runningTasks s) < maxConcurrentTasks s \<Longrightarrow> taskQueue s \<noteq> [] \<Longrightarrow>
   executing (processQueue s) = executing s @ [hd (taskQueue s)]
   \<and> taskQueue (processQueue s) = tl (taskQueue s)"
  by (simp add: processQueue_def Let_def)

text \<open>
  C5, as stated, fails: after the failure of a task of priority 5 the queue holds that task
  at its head, before a waiting task of priority 1, and the dispatch at the retry timer
  removes the task of priority 5 while the task of priority 1 is in the queue.
\<close>

theorem retry_jumps_the_queue:
  "map priority (taskQueue (run (constructor []\<lparr>maxConcurrentTasks := 1\<rparr>) low_priority_retry)) = [5, 1]
   \<and> map task_id (taskQueue (run (constructor []\<lparr>maxConcurrentTasks := 1\<rparr>) low_priority_retry))
       = [''a'', ''b'']
   \<and> executing (run (constructor []\<lparr>maxConcurrentTasks := 1\<rparr>) low_priority_retry) = []
   \<and> map task_id (executing (run (constructor []\<lparr>maxConcurrentTasks := 1\<rparr>) (low_priority_retry @ [Timer])))
       = [''a'']
   \<and> map priority (executing (run (constructor []\<lparr>maxConcurrentTasks := 1\<rparr>) (low_priority_retry @ [Timer])))
       = [5]
   \<and> map priority (taskQueue (run (constructor []\<lparr>maxConcurrentTasks := 1\<rparr>) (low_priority_retry @ [Timer])))
       = [1]"
  by code_simp

text \<open>
  C5, amended. A dispatch removes the head of the queue. The head has minimal priority
  among the queued tasks whenever the queue is in ascending order of priority; every
  \<open>queueTask\<close> leaves it so, and every action other than a retried failure keeps it so. A
  retried failure puts the failed task at the head of the queue, whatever its priority.
\<close>

theorem head_minimal_in_sorted_queue:
  "(length (runningTasks s) < maxConcurrentTasks s \<and> taskQueue s \<noteq> [] \<longrightarrow>
      executing (processQueue s) = executing s @ [hd (taskQueue s)]
      \<and> taskQueue (processQueue s) = tl (taskQueue s))
   \<and> (by_priority s \<and> t \<in> set (taskQueue s) \<longrightarrow> priority (hd (taskQueue s)) \<le> priority t)
   \<and> by_priority (queueTask x ty opts now s)
   \<and> (by_priority s \<and> retry_free s acts \<longrightarrow> by_priority (run s acts))
   \<and> (is_retry s (Settle i c n) \<longrightarrow>
        taskQueue (settle i c n s)
          = (executing s ! i)\<lparr>retryCount := retryCount (executing s ! i) + 1\<rparr> # taskQueue s)"
proof (intro conjI impI)
  show "executing (processQueue s) = executing s @ [hd (taskQueue s)]"
    if "length (runningTasks s) < maxConcurrentTasks s \<and> taskQueue s \<noteq> []"
    using that processQueue_head [of s] by blast
  show "taskQueue (processQueue s) = tl (taskQueue s)"
    if "length (runningTasks s) < maxConcurrentTasks s \<and> taskQueue s \<noteq> []"
    using that processQueue_head [of s] by blast
  show "priority (hd (taskQueue s)) \<le> priority t" if "by_priority s \<and> t \<in> set (taskQueue s)"
    using that head_minimal [of s t] by blast
  show "by_priority (queueTask x ty opts now s)" by (rule queueTask_by_priority)
  show "by_priority (run s acts)" if "by_priority s \<and> retry_free s acts"
    using that run_by_priority [of s acts] by blast
  show "taskQueue (settle i c n s)
          = (executing s ! i)\<lparr>retryCount := retryCount (executing s ! i) + 1\<rparr> # taskQueue s"
    if "is_retry s (Settle i c n)"
    using that by (auto simp: settle_def Let_def isl_def)
qed

theorem head_minimal_in_sorted_queue_witness:
  "length (runningTasks retried_first) < maxConcurrentTasks retried_first
   \<and> taskQueue retried_first \<noteq> []
   \<and> executing (processQueue retried_first) = executing retried_first @ [hd (taskQueue retried_first)]
   \<and> by_priority three_waiting
   \<and> last (taskQueue three_waiting) \<in> set (taskQueue three_waiting)
   \<and> priority (hd (taskQueue three_waiting)) \<le> priority (last (taskQueue three_waiting))
   \<and> retry_free three_waiting (replicate 3 (Settle 0 (Closed (Some 0) [] [] 0) 10))
   \<and> by_priority (run three_waiting (replicate 3 (Settle 0 (Closed (Some 0) [] [] 0) 10)))
   \<and> is_retry three_waiting (Settle 0 Hung 300000)
   \<and> map task_id (taskQueue (settle 0 Hung 300000 three_waiting))
       = [''z'', ''b'', ''d'', ''c'', ''a'', ''e'']
   \<and> map priority (taskQueue (settle 0 Hung 300000 three_waiting)) = [5, 1, 1, 3, 5, 5]"
proof -
  let ?ok = "replicate 3 (Settle 0 (Closed (Some 0) [] [] 0) 10)"
  have h1: "length (runningTasks retried_first) < maxConcurrentTasks retried_first
            \<and> taskQueue retried_first \<noteq> []" by code_simp
  have h2: "by_priority three_waiting
            \<and> last (taskQueue three_waiting) \<in> set (taskQueue three_waiting)" by code_simp
  have h3: "retry_free three_waiting ?ok" by code_simp
  have h4: "is_retry three_waiting (Settle 0 Hung 300000)" by code_simp
  have h5: "map task_id (taskQueue (settle 0 Hung 300000 three_waiting))
       = [''z'', ''b'', ''d'', ''c'', ''a'', ''e'']
     \<and> map priority (taskQueue (settle 0 Hung 300000 three_waiting)) = [5, 1, 1, 3, 5, 5]"
    by code_simp
  note A = head_minimal_in_sorted_queue [of retried_first]
  note B = head_minimal_in_sorted_queue [of three_waiting "last (taskQueue three_waiting)"
      _ _ _ _ ?ok 0 Hung 300000]
  have a: "executing (processQueue retried_first)
           = executing retried_first @ [hd (taskQueue retried_first)]"
    using A h1 by blast
  have b: "priority (hd (taskQueue three_waiting)) \<le> priority (last (taskQueue three_waiting))"
    using B h2 by blast
  have c: "by_priority (run three_waiting ?ok)" using B h2 h3 by blast
  show ?thesis using h1 h2 h3 h4 h5 a b c by simp
qed

subsection \<open>Terminal outcomes and the reports directory\<close>

lemma processQueue_reportsDir [simp]: "reportsDir (processQueue s) = reportsDir s"
  by (simp add: processQueue_def Let_def)

lemma emit_reportsDir [simp]: "reportsDir (emit ev s) = reportsDir s"
  by (cases ev) (simp_all add: emit_def)

lemma settle_reportsDir [simp]: "reportsDir (settle i c now s) = reportsDir s"
  by (simp add: settle_def Let_def split: sum.splits)

lemma update_keys: "k \<in> fst ` set al \<Longrightarrow> map fst (AList.update k v al) = map fst al"
  by (induction al) auto

text \<open>A listing in ascending order is still one after a file has been written.\<close>

lemma writeFile_sorted:
  "sorted (map fst dir) \<Longrightarrow> sorted (map fst (writeFile name contents dir))"
  by (simp add: writeFile_def update_keys sorted_insort_key)

lemma step_reportsDir:
  "reportsDir (step s a) = fold (\<lambda>(name, contents). writeFile name contents) (written [a]) (reportsDir s)"
  by (cases a) (simp_all add: queueTask_def timer_def stopAllTasks_def)

lemma written_Cons: "written (a # as) = written [a] @ written as"
  by (cases a) simp_all

lemma run_reportsDir:
  "reportsDir (run s acts) = fold (\<lambda>(name, contents). writeFile name contents) (written acts) (reportsDir s)"
proof (induction acts arbitrary: s)
  case Nil
  then show ?case by (simp add: run_def)
next
  case (Cons a as)
  have "reportsDir (run s (a # as)) = reportsDir (run (step s a) as)" by (simp add: run_def)
  also have "\<dots> = fold (\<lambda>(name, contents). writeFile name contents) (written as) (reportsDir (step s a))"
    by (rule Cons.IH)
  also have "\<dots> = fold (\<lambda>(name, contents). writeFile name contents) (written [a] @ written as) (reportsDir s)"
    by (simp only: step_reportsDir fold_append comp_apply)
  finally show ?case by (simp only: written_Cons [of a as])
qed

text \<open>
  C6, as stated, fails: a task has failed for good (\<open>taskFailed\<close> was emitted for it, after
  its retries), and the reports directory, empty before, is still empty. For the task of
  unknown type no process was even spawned; the child of the other task wrote nothing
  before it was killed at the timeout and before it exited with code 1.
\<close>

theorem terminal_failure_not_persisted:
  "failed (run (constructor []) unknown_exhausted) ''h'' = 1
   \<and> reportsDir (run (constructor []) unknown_exhausted) = []
   \<and> emitted (run (constructor []) timed_out)
       = [TaskStarted ''p'' ''performance'', TaskStarted ''p'' ''performance'',
          TaskFailed ''p'' ''performance'' (TaskFailedWithCode (Some 1) ''crash'')]
   \<and> reportsDir (run (constructor []) timed_out) = []"
  by code_simp

text \<open>
  C6, amended. The reports directory changes by what the child processes write into it
  while they run, and by nothing that the orchestrator does in its queue: the settlement of
  an execution, be it a completion, a retried failure or a terminal failure, leaves the
  directory as it is; \<open>taskCompleted\<close> and \<open>taskFailed\<close> are emitted, and their handlers delete
  the task from the running set and dispatch the next task.
\<close>

theorem outcomes_only_emitted:
  "reportsDir (run s acts)
     = fold (\<lambda>(name, contents). writeFile name contents) (written acts) (reportsDir s)
   \<and> reportsDir (settle i c now s) = reportsDir s
   \<and> reportsDir (emit ev s) = reportsDir s
   \<and> emit (TaskCompleted taskId taskType r) s
       = processQueue (s\<lparr>emitted := emitted s @ [TaskCompleted taskId taskType r],
                          runningTasks := AList.delete taskId (runningTasks s)\<rparr>)
   \<and> emit (TaskFailed taskId taskType e) s
       = processQueue (s\<lparr>emitted := emitted s @ [TaskFailed taskId taskType e],
                          runningTasks := AList.delete taskId (runningTasks s)\<rparr>)"
proof (intro conjI)
  show "reportsDir (run s acts)
     = fold (\<lambda>(name, contents). writeFile name contents) (written acts) (reportsDir s)"
    by (rule run_reportsDir)
  show "reportsDir (settle i c now s) = reportsDir s" by simp
  show "reportsDir (emit ev s) = reportsDir s" by simp
  show "emit (TaskCompleted taskId taskType r) s
       = processQueue (s\<lparr>emitted := emitted s @ [TaskCompleted taskId taskType r],
                          runningTasks := AList.delete taskId (runningTasks s)\<rparr>)"
    by (simp add: emit_def)
  show "emit (TaskFailed taskId taskType e) s
       = processQueue (s\<lparr>emitted := emitted s @ [TaskFailed taskId taskType e],
                          runningTasks := AList.delete taskId (runningTasks s)\<rparr>)"
    by (simp add: emit_def)
qed

subsection \<open>Objects\<close>

lemma map_of_insert_index:
  "k \<notin> fst ` set obj \<Longrightarrow> map_of (insert_index k v obj) = (map_of obj)(k \<mapsto> v)"
proof (induction obj)
  case Nil
  then show ?case by simp
next
  case (Cons p ps)
  obtain a b where p: "p = (a, b)" by (cases p)
  have ne: "a \<noteq> k" and nin: "k \<notin> fst ` set ps" using Cons.prems p by auto
  show ?case
  proof (cases "is_index a \<and> decimal a < decimal k")
    case True
    have "map_of (insert_index k v (p # ps)) = (map_of (insert_index k v ps))(a \<mapsto> b)"
      using True p by simp
    also have "\<dots> = ((map_of ps)(k \<mapsto> v))(a \<mapsto> b)" by (simp only: Cons.IH [OF nin])
    also have "\<dots> = ((map_of ps)(a \<mapsto> b))(k \<mapsto> v)" using ne by (simp only: fun_upd_twist [of k a])
    also have "\<dots> = (map_of (p # ps))(k \<mapsto> v)" using p by simp
    finally show ?thesis .
  next
    case False
    then have "insert_index k v (p # ps) = (k, v) # p # ps" using p by auto
    then show ?thesis by (simp only: map_of.simps fst_conv snd_conv)
  qed
qed

lemma keys_insert_index: "fst ` set (insert_index k v obj) = insert k (fst ` set obj)"
  by (induction obj) auto

lemma distinct_insert_index:
  "k \<notin> fst ` set obj \<Longrightarrow> distinct (map fst obj) \<Longrightarrow> distinct (map fst (insert_index k v obj))"
proof (induction obj)
  case Nil
  then show ?case by simp
next
  case (Cons p ps)
  then have ne: "fst p \<noteq> k" and nin: "k \<notin> fst ` set ps" and d: "distinct (map fst ps)"
    and np: "fst p \<notin> fst ` set ps" by auto
  have "fst p \<notin> fst ` set (insert_index k v ps)" using ne np by (simp add: keys_insert_index)
  then show ?case using Cons.IH [OF nin d] Cons.prems by auto
qed

lemma map_of_assign: "map_of (assign k v obj) = (map_of obj)(k \<mapsto> v)"
proof (cases "k \<in> fst ` set obj")
  case True
  then show ?thesis by (simp add: assign_def update_conv')
next
  case False
  then have n: "map_of obj k = None" by (simp add: map_of_eq_None_iff)
  have "map_of (obj @ [(k, v)]) = (map_of obj)(k \<mapsto> v)"
  proof
    fix x show "map_of (obj @ [(k, v)]) x = ((map_of obj)(k \<mapsto> v)) x"
      using n by (cases "map_of obj x") (auto simp: map_of_append map_add_def)
  qed
  then show ?thesis using False by (simp add: assign_def map_of_insert_index)
qed

lemma keys_assign: "fst ` set (assign k v obj) = insert k (fst ` set obj)"
proof -
  have "fst ` set (AList.update k v obj) = insert k (fst ` set obj)"
    using dom_update [of k v obj] by (simp add: dom_map_of_conv_image_fst update_conv')
  then show ?thesis by (auto simp: assign_def keys_insert_index)
qed

lemma distinct_assign: "distinct (map fst obj) \<Longrightarrow> distinct (map fst (assign k v obj))"
  by (simp add: assign_def distinct_update distinct_insert_index)

subsection \<open>Status\<close>

lemma latestReports_snoc: "latestReports (ns @ [n]) = latest_step n (latestReports ns)"
  by (simp add: latestReports_def)

lemma latest_step_distinct: "distinct (map fst L) \<Longrightarrow> distinct (map fst (latest_step n L))"
  by (simp add: latest_step_def distinct_assign split: option.splits)

lemma latestReports_distinct: "distinct (map fst (latestReports ns))"
proof (induction ns rule: rev_induct)
  case Nil
  then show ?case by (simp add: latestReports_def)
next
  case (snoc n ns)
  then show ?case by (simp only: latestReports_snoc latest_step_distinct)
qed

lemma Nil_least: "([]::string) \<le> n"
  by (cases n) simp_all

lemma latestReports_greatest:
  "ty \<noteq> ''constructor'' \<Longrightarrow>
   map_of (latestReports ns) ty
   = (if filter (\<lambda>n. report_type n = ty) ns = [] then None
      else Some (Max (set (filter (\<lambda>n. report_type n = ty) ns))))"
proof (induction ns rule: rev_induct)
  case Nil
  then show ?case by (simp add: latestReports_def)
next
  case (snoc n ns)
  let ?L = "latestReports ns"
  let ?fs = "filter (\<lambda>n. report_type n = ty) ns"
  show ?case
  proof (cases "report_type n = ty")
    case False
    then have "map_of (latest_step n ?L) ty = map_of ?L ty"
      by (auto simp: latest_step_def map_of_assign split: option.splits)
    then show ?thesis using False snoc by (simp add: latestReports_snoc)
  next
    case True
    show ?thesis
    proof (cases "?fs = []")
      case e: True
      then have "map_of ?L ty = None" using snoc by simp
      then have "map_of (latest_step n ?L) ty = Some n"
        using True snoc.prems by (simp add: latest_step_def map_of_assign)
      then show ?thesis using True e by (simp add: latestReports_snoc)
    next
      case ne: False
      let ?cur = "Max (set ?fs)"
      have cur: "map_of ?L ty = Some ?cur" using snoc ne by simp
      have fin: "finite (set ?fs)" "set ?fs \<noteq> {}" using ne by (simp_all only: List.finite_set set_empty not_False_eq_True)
      have mx: "Max (insert n (set ?fs)) = max n ?cur" using fin by (rule Max_insert)
      have "map_of (latest_step n ?L) ty = Some (max n ?cur)"
      proof (cases "?cur = [] \<or> ?cur < n")
        case c: True
        then have "?cur \<le> n" using Nil_least [of n] by auto
        then have "max n ?cur = n" by (simp add: max_def)
        then show ?thesis using c cur True by (auto simp: latest_step_def map_of_assign)
      next
        case c: False
        then have "n \<le> ?cur" by auto
        then have "max n ?cur = ?cur" by (simp add: max_def)
        then show ?thesis using c cur True by (auto simp: latest_step_def)
      qed
      then show ?thesis using True mx by (simp add: latestReports_snoc)
    qed
  qed
qed

lemma status_entry_other:
  assumes "\<And>r0 st. map_of (summary ty' r0 st) key = map_of st key"
  shows "map_of (status_entry dir (ty', f) st) key = map_of st key"
  using assms by (simp add: status_entry_def split: option.splits)

lemma status_entry_own:
  assumes "\<And>r0 st. map_of (summary ty r0 st) key = Some (v r0)"
  shows "map_of (status_entry dir (ty, f) st) key
         = (case map_of dir f of
              Some (Some d) \<Rightarrow> (case first_element d of Some r0 \<Rightarrow> Some (v r0) | None \<Rightarrow> map_of st key)
            | _ \<Rightarrow> map_of st key)"
  using assms by (simp add: status_entry_def split: option.splits)

lemma fold_status_key:
  assumes other: "\<And>ty' r0 st. ty' \<noteq> ty \<Longrightarrow> map_of (summary ty' r0 st) key = map_of st key"
    and own: "\<And>r0 st. map_of (summary ty r0 st) key = Some (v r0)"
  shows "distinct (map fst L) \<Longrightarrow>
    map_of (fold (status_entry dir) L st) key
    = (case map_of L ty of
         None \<Rightarrow> map_of st key
       | Some f \<Rightarrow>
           (case map_of dir f of
              Some (Some d) \<Rightarrow> (case first_element d of Some r0 \<Rightarrow> Some (v r0) | None \<Rightarrow> map_of st key)
            | _ \<Rightarrow> map_of st key))"
proof (induction L arbitrary: st)
  case Nil
  then show ?case by simp
next
  case (Cons e L)
  obtain ty' f where e: "e = (ty', f)" by (cases e)
  have d: "distinct (map fst L)" and nin: "ty' \<notin> fst ` set L" using Cons.prems e by simp_all
  note ih = Cons.IH [OF d, of "status_entry dir e st"]
  show ?case
  proof (cases "ty' = ty")
    case True
    then have "map_of L ty = None" using nin by (simp add: map_of_eq_None_iff)
    then have "map_of (fold (status_entry dir) L (status_entry dir e st)) key
               = map_of (status_entry dir e st) key" using ih by simp
    then show ?thesis using True e status_entry_own [of ty key v dir f st, OF own] by simp
  next
    case False
    have k: "map_of (status_entry dir e st) key = map_of st key"
      unfolding e by (rule status_entry_other) (rule other [OF False])
    have "map_of ((ty', f) # L) ty = map_of L ty" using False by simp
    then show ?thesis using ih unfolding e [symmetric] k by (simp add: e)
  qed
qed

lemma getStatus_key:
  assumes other: "\<And>ty' r0 st. ty' \<noteq> ty \<Longrightarrow> map_of (summary ty' r0 st) key = map_of st key"
    and own: "\<And>r0 st. map_of (summary ty r0 st) key = Some (v r0)"
    and "map_of (latestReports (map fst (reportsDir s))) ty = Some f"
    and "map_of (reportsDir s) f = Some (Some d)"
    and "first_element d = Some r0"
  shows "map_of (getStatus s) key = Some (v r0)"
proof -
  have "map_of (fold (status_entry (reportsDir s)) (latestReports (map fst (reportsDir s))) []) key
    = (case map_of (latestReports (map fst (reportsDir s))) ty of
         None \<Rightarrow> map_of [] key
       | Some f \<Rightarrow>
           (case map_of (reportsDir s) f of
              Some (Some d) \<Rightarrow> (case first_element d of Some r0 \<Rightarrow> Some (v r0) | None \<Rightarrow> map_of [] key)
            | _ \<Rightarrow> map_of [] key))"
    using other own latestReports_distinct by (rule fold_status_key)
  then show ?thesis using assms(3,4,5) by (simp add: getStatus_def)
qed

lemma perf_score:
  assumes "map_of (latestReports (map fst (reportsDir s))) ''performance'' = Some f"
    and "map_of (reportsDir s) f = Some (Some d)" and "first_element d = Some r0"
  shows "map_of (getStatus s) ''perf-score''
         = Some (js_or (get_prop (get_prop r0 ''performanceScore'') ''score'') (JStr ''--''))"
  by (rule getStatus_key [OF _ _ assms]) (simp_all add: summary_def update_conv')

lemma security_score:
  assumes "map_of (latestReports (map fst (reportsDir s))) ''security'' = Some f"
    and "map_of (reportsDir s) f = Some (Some d)" and "first_element d = Some r0"
  shows "map_of (getStatus s) ''security-score''
         = Some (js_or (get_prop (get_prop r0 ''securityScore'') ''score'') (JStr ''--''))"
  by (rule getStatus_key [OF _ _ assms]) (simp_all add: summary_def update_conv')

lemma security_vulns:
  assumes "map_of (latestReports (map fst (reportsDir s))) ''security'' = Some f"
    and "map_of (reportsDir s) f = Some (Some d)" and "first_element d = Some r0"
  shows "map_of (getStatus s) ''security-vulns''
         = Some (js_or (get_prop (get_prop r0 ''jsSecurityIssues'') ''length'') (JNum 0))"
  by (rule getStatus_key [OF _ _ assms]) (simp_all add: summary_def update_conv')

lemma ai_content:
  assumes "map_of (latestReports (map fst (reportsDir s))) ''content'' = Some f"
    and "map_of (reportsDir s) f = Some (Some d)" and "first_element d = Some r0"
  shows "map_of (getStatus s) ''ai-content''
         = Some (js_or (get_prop (get_prop r0 ''aiScore'') ''score'') (JStr ''--''))"
  by (rule getStatus_key [OF _ _ assms]) (simp_all add: summary_def update_conv')

lemma ai_seo:
  assumes "map_of (latestReports (map fst (reportsDir s))) ''content'' = Some f"
    and "map_of (reportsDir s) f = Some (Some d)" and "first_element d = Some r0"
  shows "map_of (getStatus s) ''ai-seo''
         = Some (if truthy (get_prop (get_prop (get_prop r0 ''pageData'') ''seo'') ''title'')
                 then JStr ''Good'' else JStr ''Poor'')"
  by (rule getStatus_key [OF _ _ assms]) (simp_all add: summary_def update_conv')

lemma perf_load:
  assumes "map_of (latestReports (map fst (reportsDir s))) ''performance'' = Some f"
    and "map_of (reportsDir s) f = Some (Some d)" and "first_element d = Some r0"
  shows "map_of (getStatus s) ''perf-load''
         = Some (JStr (to_string (get_prop r0 ''loadTime'') @ ''ms''))"
  by (rule getStatus_key [OF _ _ assms]) (simp_all add: summary_def update_conv' js_or_def)

lemma less_append_same_length:
  fixes xs ys :: "'a::linorder list"
  shows "length xs = length ys \<Longrightarrow> (xs @ us < ys @ vs) \<longleftrightarrow> (xs < ys \<or> (xs = ys \<and> us < vs))"
  by (induction xs ys rule: list_induct2) auto

lemma less_same_prefix:
  fixes x y :: "'a::linorder list"
  shows "(pre @ x < pre @ y) \<longleftrightarrow> x < y"
  by (induction pre) auto

lemma digit_char_less:
  "0 \<le> i \<Longrightarrow> i < 10 \<Longrightarrow> 0 \<le> j \<Longrightarrow> j < 10 \<Longrightarrow> digit_char i < digit_char j \<longleftrightarrow> i < j"
proof -
  assume a: "0 \<le> i" "i < 10" "0 \<le> j" "j < 10"
  have i: "i = 0 \<or> i = 1 \<or> i = 2 \<or> i = 3 \<or> i = 4 \<or> i = 5 \<or> i = 6 \<or> i = 7 \<or> i = 8 \<or> i = 9"
    using a(1,2) by arith
  have j: "j = 0 \<or> j = 1 \<or> j = 2 \<or> j = 3 \<or> j = 4 \<or> j = 5 \<or> j = 6 \<or> j = 7 \<or> j = 8 \<or> j = 9"
    using a(3,4) by arith
  show ?thesis using i j by (auto simp: digit_char_def)
qed

lemma show_pos_length: "1 \<le> length (show_pos n)"
  by (induction n rule: show_pos.induct) (subst show_pos.simps, simp)

lemma show_pos_small: "n < 10 \<Longrightarrow> show_pos n = [digit_char n]"
  by (subst show_pos.simps) simp

lemma show_pos_large:
  "\<not> n < 10 \<Longrightarrow> show_pos n = show_pos (n div 10) @ [digit_char (n mod 10)]"
  by (subst show_pos.simps) simp

lemma div_mod_less:
  "((a::int) div 10 < b div 10 \<or> (a div 10 = b div 10 \<and> a mod 10 < b mod 10)) \<longleftrightarrow> a < b"
proof -
  have a: "a = 10 * (a div 10) + a mod 10" and b: "b = 10 * (b div 10) + b mod 10" by simp_all
  have ma: "0 \<le> a mod 10" "a mod 10 < 10" and mb: "0 \<le> b mod 10" "b mod 10 < 10" by simp_all
  show ?thesis using a b ma mb by linarith
qed

lemma div_mod_eq: "((a::int) div 10 = b div 10 \<and> a mod 10 = b mod 10) \<longleftrightarrow> a = b"
  by (metis div_mult_mod_eq)

lemma digit_char_eq:
  "0 \<le> i \<Longrightarrow> i < 10 \<Longrightarrow> 0 \<le> j \<Longrightarrow> j < 10 \<Longrightarrow> digit_char i = digit_char j \<longleftrightarrow> i = j"
proof -
  assume a: "0 \<le> i" "i < 10" "0 \<le> j" "j < 10"
  have i: "i = 0 \<or> i = 1 \<or> i = 2 \<or> i = 3 \<or> i = 4 \<or> i = 5 \<or> i = 6 \<or> i = 7 \<or> i = 8 \<or> i = 9"
    using a(1,2) by arith
  have j: "j = 0 \<or> j = 1 \<or> j = 2 \<or> j = 3 \<or> j = 4 \<or> j = 5 \<or> j = 6 \<or> j = 7 \<or> j = 8 \<or> j = 9"
    using a(3,4) by arith
  show ?thesis using i j by (auto simp: digit_char_def)
qed

lemma show_pos_order:
  "0 \<le> a \<Longrightarrow> 0 \<le> b \<Longrightarrow> length (show_pos a) = length (show_pos b) \<Longrightarrow>
   (show_pos a < show_pos b \<longleftrightarrow> a < b) \<and> (show_pos a = show_pos b \<longleftrightarrow> a = b)"
proof (induction a arbitrary: b rule: show_pos.induct)
  case (1 a)
  show ?case
  proof (cases "a < 10")
    case sa: True
    have sb: "b < 10"
    proof (rule ccontr)
      assume nb: "\<not> b < 10"
      have "2 \<le> length (show_pos b)"
        using show_pos_length [of "b div 10"] by (simp add: show_pos_large [OF nb])
      then show False using "1.prems"(3) sa by (simp add: show_pos_small)
    qed
    show ?thesis using sa sb "1.prems"(1,2)
      by (simp add: show_pos_small digit_char_less digit_char_eq)
  next
    case la: False
    have lb: "\<not> b < 10"
    proof
      assume sb: "b < 10"
      have "2 \<le> length (show_pos a)"
        using show_pos_length [of "a div 10"] by (simp add: show_pos_large [OF la])
      then show False using "1.prems"(3) sb by (simp add: show_pos_small)
    qed
    have len: "length (show_pos (a div 10)) = length (show_pos (b div 10))"
      using "1.prems"(3) by (simp add: show_pos_large [OF la] show_pos_large [OF lb])
    have a0: "0 \<le> a div 10" and b0: "0 \<le> b div 10" using "1.prems"(1,2) by simp_all
    have ih: "(show_pos (a div 10) < show_pos (b div 10) \<longleftrightarrow> a div 10 < b div 10)
              \<and> (show_pos (a div 10) = show_pos (b div 10) \<longleftrightarrow> a div 10 = b div 10)"
      using la a0 b0 len by (rule "1.IH")
    have ma: "0 \<le> a mod 10" "a mod 10 < 10" and mb: "0 \<le> b mod 10" "b mod 10 < 10" by simp_all
    have dl: "digit_char (a mod 10) < digit_char (b mod 10) \<longleftrightarrow> a mod 10 < b mod 10"
      using ma mb by (rule digit_char_less)
    have de: "digit_char (a mod 10) = digit_char (b mod 10) \<longleftrightarrow> a mod 10 = b mod 10"
      using ma mb by (rule digit_char_eq)
    have "show_pos a < show_pos b \<longleftrightarrow>
          (show_pos (a div 10) < show_pos (b div 10)
           \<or> (show_pos (a div 10) = show_pos (b div 10)
               \<and> [digit_char (a mod 10)] < [digit_char (b mod 10)]))"
      by (simp only: show_pos_large [OF la] show_pos_large [OF lb] less_append_same_length [OF len])
    also have "\<dots> \<longleftrightarrow> (a div 10 < b div 10 \<or> (a div 10 = b div 10 \<and> a mod 10 < b mod 10))"
      using ih dl by simp
    also have "\<dots> \<longleftrightarrow> a < b" by (rule div_mod_less)
    finally have less: "show_pos a < show_pos b \<longleftrightarrow> a < b" .
    have "show_pos a = show_pos b \<longleftrightarrow>
          (show_pos (a div 10) = show_pos (b div 10) \<and> digit_char (a mod 10) = digit_char (b mod 10))"
      by (simp add: show_pos_large [OF la] show_pos_large [OF lb])
    also have "\<dots> \<longleftrightarrow> (a div 10 = b div 10 \<and> a mod 10 = b mod 10)"
      using ih de by simp
    also have "\<dots> \<longleftrightarrow> a = b" by (rule div_mod_eq)
    finally have eq: "show_pos a = show_pos b \<longleftrightarrow> a = b" .
    show ?thesis using less eq by simp
  qed
qed

lemma timestamp_order:
  assumes "0 \<le> a" "0 \<le> b" "length (show_int a) = length (show_int b)"
  shows "(pre @ show_int a @ suf < pre @ show_int b @ suf) \<longleftrightarrow> a < b"
proof -
  have sa: "show_int a = show_pos a" and sb: "show_int b = show_pos b"
    using assms(1,2) by (simp_all add: show_int_def)
  have len: "length (show_pos a) = length (show_pos b)" using assms(3) sa sb by simp
  note o = show_pos_order [OF assms(1,2) len]
  have "(pre @ show_int a @ suf < pre @ show_int b @ suf)
        \<longleftrightarrow> (show_pos a @ suf < show_pos b @ suf)"
    by (simp only: sa sb less_same_prefix)
  also have "\<dots> \<longleftrightarrow> (show_pos a < show_pos b \<or> (show_pos a = show_pos b \<and> suf < suf))"
    using len by (rule less_append_same_length)
  also have "\<dots> \<longleftrightarrow> a < b" using o by simp
  finally show ?thesis .
qed

text \<open>
  The file that \<open>getStatus\<close> reads for a type is the one of that type whose name is the
  greatest in the order of strings; for names that differ in a timestamp of the same number
  of digits, as those of \<open>Date.now()\<close> do, this is the file of the greatest timestamp. Where
  that file can be read, the fields \<open>perf-score\<close>, \<open>security-score\<close>, \<open>security-vulns\<close>,
  \<open>ai-content\<close> and \<open>ai-seo\<close> come from the first element of its data alone, and where the
  value is absent they are \<open>--\<close>, \<open>--\<close>, 0, \<open>--\<close> and \<open>Poor\<close>; \<open>perf-load\<close> is the string of
  \<open>loadTime\<close> followed by \<open>ms\<close>, whatever \<open>loadTime\<close> is.
\<close>

lemma status_from_greatest_name:
  "(ty \<noteq> ''constructor'' \<longrightarrow>
      map_of (latestReports names) ty
        = (if filter (\<lambda>n. report_type n = ty) names = [] then None
           else Some (Max (set (filter (\<lambda>n. report_type n = ty) names)))))
   \<and> (0 \<le> t1 \<and> 0 \<le> t2 \<and> length (show_int t1) = length (show_int t2) \<longrightarrow>
        (pre @ show_int t1 @ suf < pre @ show_int t2 @ suf) = (t1 < t2))
   \<and> (map_of (latestReports (map fst (reportsDir s))) ''performance'' = Some f
        \<and> map_of (reportsDir s) f = Some (Some d) \<and> first_element d = Some r \<longrightarrow>
        map_of (getStatus s) ''perf-score''
          = Some (js_or (get_prop (get_prop r ''performanceScore'') ''score'') (JStr ''--''))
        \<and> map_of (getStatus s) ''perf-load''
          = Some (JStr (to_string (get_prop r ''loadTime'') @ ''ms'')))
   \<and> (map_of (latestReports (map fst (reportsDir s))) ''security'' = Some f'
        \<and> map_of (reportsDir s) f' = Some (Some d') \<and> first_element d' = Some r' \<longrightarrow>
        map_of (getStatus s) ''security-score''
          = Some (js_or (get_prop (get_prop r' ''securityScore'') ''score'') (JStr ''--''))
        \<and> map_of (getStatus s) ''security-vulns''
          = Some (js_or (get_prop (get_prop r' ''jsSecurityIssues'') ''length'') (JNum 0)))
   \<and> (map_of (latestReports (map fst (reportsDir s))) ''content'' = Some f''
        \<and> map_of (reportsDir s) f'' = Some (Some d'') \<and> first_element d'' = Some r'' \<longrightarrow>
        map_of (getStatus s) ''ai-content''
          = Some (js_or (get_prop (get_prop r'' ''aiScore'') ''score'') (JStr ''--''))
        \<and> map_of (getStatus s) ''ai-seo''
          = Some (if truthy (get_prop (get_prop (get_prop r'' ''pageData'') ''seo'') ''title'')
                  then JStr ''Good'' else JStr ''Poor''))
   \<and> js_or None dflt = dflt
   \<and> get_prop None p = None"
proof (intro conjI impI)
  show "map_of (latestReports names) ty
        = (if filter (\<lambda>n. report_type n = ty) names = [] then None
           else Some (Max (set (filter (\<lambda>n. report_type n = ty) names))))"
    if "ty \<noteq> ''constructor''" using that by (rule latestReports_greatest)
  show "(pre @ show_int t1 @ suf < pre @ show_int t2 @ suf) = (t1 < t2)"
    if "0 \<le> t1 \<and> 0 \<le> t2 \<and> length (show_int t1) = length (show_int t2)"
    using that timestamp_order [of t1 t2 pre suf] by blast
  show "map_of (getStatus s) ''perf-score''
          = Some (js_or (get_prop (get_prop r ''performanceScore'') ''score'') (JStr ''--''))"
    if "map_of (latestReports (map fst (reportsDir s))) ''performance'' = Some f
        \<and> map_of (reportsDir s) f = Some (Some d) \<and> first_element d = Some r"
    using that perf_score [of s f d r] by blast
  show "map_of (getStatus s) ''perf-load''
          = Some (JStr (to_string (get_prop r ''loadTime'') @ ''ms''))"
    if "map_of (latestReports (map fst (reportsDir s))) ''performance'' = Some f
        \<and> map_of (reportsDir s) f = Some (Some d) \<and> first_element d = Some r"
    using that perf_load [of s f d r] by blast
  show "map_of (getStatus s) ''security-score''
          = Some (js_or (get_prop (get_prop r' ''securityScore'') ''score'') (JStr ''--''))"
    if "map_of (latestReports (map fst (reportsDir s))) ''security'' = Some f'
        \<and> map_of (reportsDir s) f' = Some (Some d') \<and> first_element d' = Some r'"
    using that security_score [of s f' d' r'] by blast
  show "map_of (getStatus s) ''security-vulns''
          = Some (js_or (get_prop (get_prop r' ''jsSecurityIssues'') ''length'') (JNum 0))"
    if "map_of (latestReports (map fst (reportsDir s))) ''security'' = Some f'
        \<and> map_of (reportsDir s) f' = Some (Some d') \<and> first_element d' = Some r'"
    using that security_vulns [of s f' d' r'] by blast
  show "map_of (getStatus s) ''ai-content''
          = Some (js_or (get_prop (get_prop r'' ''aiScore'') ''score'') (JStr ''--''))"
    if "map_of (latestReports (map fst (reportsDir s))) ''content'' = Some f''
        \<and> map_of (reportsDir s) f'' = Some (Some d'') \<and> first_element d'' = Some r''"
    using that ai_content [of s f'' d'' r''] by blast
  show "map_of (getStatus s) ''ai-seo''
          = Some (if truthy (get_prop (get_prop (get_prop r'' ''pageData'') ''seo'') ''title'')
                  then JStr ''Good'' else JStr ''Poor'')"
    if "map_of (latestReports (map fst (reportsDir s))) ''content'' = Some f''
        \<and> map_of (reportsDir s) f'' = Some (Some d'') \<and> first_element d'' = Some r''"
    using that ai_seo [of s f'' d'' r''] by blast
  show "js_or None dflt = dflt" by (simp add: js_or_def)
  show "get_prop None p = None" by simp
qed

lemma status_from_greatest_name_example:
  "(0::int) \<le> 1700000000002 \<and> (0::int) \<le> 1700000000003
   \<and> length (show_int 1700000000002) = length (show_int 1700000000003)
   \<and> ''performance_'' @ show_int 1700000000002 @ ''.json''
       < ''performance_'' @ show_int 1700000000003 @ ''.json''
   \<and> map_of (latestReports (map fst (reportsDir (constructor status_dir)))) ''performance''
       = Some ''performance_1700000000003.json''
   \<and> map_of (reportsDir (constructor status_dir)) ''performance_1700000000003.json''
       = Some (Some (perf_ok 60 1100))
   \<and> map_of (getStatus (constructor status_dir)) ''perf-score'' = Some (JNum 60)
   \<and> map_of (getStatus (constructor status_dir)) ''perf-load'' = Some (JStr ''1100ms'')
   \<and> map_of (latestReports (map fst (reportsDir (constructor status_dir)))) ''security''
       = Some ''security_scan_1700000000004.json''
   \<and> map_of (reportsDir (constructor status_dir)) ''security_scan_1700000000004.json''
       = Some (Some failed_target)
   \<and> map_of (getStatus (constructor status_dir)) ''security-score'' = Some (JStr ''--'')
   \<and> map_of (getStatus (constructor status_dir)) ''security-vulns'' = Some (JNum 0)
   \<and> map_of (latestReports (map fst (reportsDir (constructor status_dir)))) ''content''
       = Some ''content_analysis_1700000000005.json''
   \<and> map_of (reportsDir (constructor status_dir)) ''content_analysis_1700000000005.json''
       = Some (Some content_ok)
   \<and> map_of (getStatus (constructor status_dir)) ''ai-content'' = Some (JNum 82)
   \<and> map_of (getStatus (constructor status_dir)) ''ai-seo'' = Some (JStr ''Poor'')"
proof -
  let ?s = "constructor status_dir"
  let ?p = "the (first_element (perf_ok 60 1100))"
  let ?q = "the (first_element failed_target)"
  let ?c = "the (first_element content_ok)"
  have t: "(0::int) \<le> 1700000000002 \<and> (0::int) \<le> 1700000000003
     \<and> length (show_int 1700000000002) = length (show_int 1700000000003)" by code_simp
  have p: "map_of (latestReports (map fst (reportsDir ?s))) ''performance''
             = Some ''performance_1700000000003.json''
     \<and> map_of (reportsDir ?s) ''performance_1700000000003.json'' = Some (Some (perf_ok 60 1100))
     \<and> first_element (perf_ok 60 1100) = Some ?p" by code_simp
  have q: "map_of (latestReports (map fst (reportsDir ?s))) ''security''
             = Some ''security_scan_1700000000004.json''
     \<and> map_of (reportsDir ?s) ''security_scan_1700000000004.json'' = Some (Some failed_target)
     \<and> first_element failed_target = Some ?q" by code_simp
  have c: "map_of (latestReports (map fst (reportsDir ?s))) ''content''
             = Some ''content_analysis_1700000000005.json''
     \<and> map_of (reportsDir ?s) ''content_analysis_1700000000005.json'' = Some (Some content_ok)
     \<and> first_element content_ok = Some ?c" by code_simp
  have vp: "js_or (get_prop (get_prop ?p ''performanceScore'') ''score'') (JStr ''--'') = JNum 60
     \<and> to_string (get_prop ?p ''loadTime'') @ ''ms'' = ''1100ms''"
    by code_simp
  have vq: "js_or (get_prop (get_prop ?q ''securityScore'') ''score'') (JStr ''--'') = JStr ''--''
     \<and> js_or (get_prop (get_prop ?q ''jsSecurityIssues'') ''length'') (JNum 0) = JNum 0"
    by code_simp
  have vc: "js_or (get_prop (get_prop ?c ''aiScore'') ''score'') (JStr ''--'') = JNum 82
     \<and> \<not> truthy (get_prop (get_prop (get_prop ?c ''pageData'') ''seo'') ''title'')"
    by code_simp
  note T = status_from_greatest_name [of _ _ 1700000000002 1700000000003 "''performance_''" "''.json''"
      ?s "''performance_1700000000003.json''" "perf_ok 60 1100" ?p
      "''security_scan_1700000000004.json''" failed_target ?q
      "''content_analysis_1700000000005.json''" content_ok ?c]
  have a: "''performance_'' @ show_int 1700000000002 @ ''.json''
       < ''performance_'' @ show_int 1700000000003 @ ''.json''"
    using T t by simp
  have b: "map_of (getStatus ?s) ''perf-score'' = Some (JNum 60)
     \<and> map_of (getStatus ?s) ''perf-load'' = Some (JStr ''1100ms'')"
    using T p vp by simp
  have d: "map_of (getStatus ?s) ''security-score'' = Some (JStr ''--'')
     \<and> map_of (getStatus ?s) ''security-vulns'' = Some (JNum 0)"
    using T q vq by simp
  have e: "map_of (getStatus ?s) ''ai-content'' = Some (JNum 82)
     \<and> map_of (getStatus ?s) ''ai-seo'' = Some (JStr ''Poor'')"
    using T c vc by simp
  show ?thesis using t p q c a b d e by simp
qed

text \<open>
  C7. On the reports that the probes write, the status of a type comes from its latest
  report alone: of the performance reports with the scores 50, 70 and 60, in the order of
  their timestamps, the last gives the score 60. Where the first result of the latest
  report is that of a target that failed, which has none of the fields, \<open>perf-score\<close>,
  \<open>security-score\<close> and \<open>ai-content\<close> are \<open>--\<close>, \<open>security-vulns\<close> is 0 and \<open>ai-seo\<close> is \<open>Poor\<close>;
  but \<open>perf-load\<close> is \<open>undefinedms\<close> and not \<open>--\<close>: in
  \<open>reportData[0]?.loadTime + 'ms' || '--'\<close> the string is made before \<open>||\<close> looks at it.
\<close>

theorem perf_load_without_placeholder:
  "getStatus (constructor [(''performance_1700000000001.json'', Some failed_target)])
     = [(''perf-score'', JStr ''--''), (''perf-load'', JStr ''undefinedms'')]
   \<and> getStatus (constructor status_dir)
     = [(''ai-content'', JNum 82), (''ai-seo'', JStr ''Poor''),
        (''perf-score'', JNum 60), (''perf-load'', JStr ''1100ms''),
        (''security-score'', JStr ''--''), (''security-vulns'', JNum 0)]
   \<and> getStatus (constructor failed_dir)
     = [(''ai-content'', JStr ''--''), (''ai-seo'', JStr ''Poor''),
        (''perf-score'', JStr ''--''), (''perf-load'', JStr ''undefinedms''),
        (''security-score'', JStr ''--''), (''security-vulns'', JNum 0)]"
  by code_simp

subsection \<open>Reports\<close>

lemma push_entry_distinct: "distinct (map fst rd) \<Longrightarrow> distinct (map fst (push_entry ty e rd))"
  by (simp add: push_entry_def distinct_update split: option.splits)

lemma ensure_group_distinct: "distinct (map fst rd) \<Longrightarrow> distinct (map fst (ensure_group ty rd))"
  by (simp add: ensure_group_def distinct_assign split: option.splits)

lemma group_ensure: "group_of (ensure_group ty' rd) ty = group_of rd ty"
  by (cases "map_of rd ty'") (simp_all add: ensure_group_def group_of_def map_of_assign)

lemma ensure_group_present: "map_of (ensure_group ty rd) ty \<noteq> None"
  by (cases "map_of rd ty") (simp_all add: ensure_group_def map_of_assign)

lemma group_push_entry:
  "map_of rd ty' \<noteq> None \<Longrightarrow>
   group_of (push_entry ty' e rd) ty = (if ty = ty' then group_of rd ty @ [e] else group_of rd ty)"
  by (cases "map_of rd ty'") (simp_all add: push_entry_def group_of_def update_conv')

lemma add_report_distinct: "distinct (map fst rd) \<Longrightarrow> distinct (map fst (add_report now f rd))"
  by (simp add: add_report_def push_entry_distinct ensure_group_distinct split: option.splits)

lemma group_add_report:
  "group_of (add_report now f rd) ty = group_of rd ty @ entries_of now [f] ty"
proof (cases "snd f")
  case None
  then show ?thesis by (simp add: add_report_def entries_of_def)
next
  case (Some d)
  let ?t = "report_type (fst f)"
  show ?thesis
  proof (cases "?t \<in> set inherited")
    case True
    then have "\<not> (?t = ty \<and> ty \<notin> set inherited)" by auto
    then show ?thesis using Some True by (simp add: add_report_def entries_of_def)
  next
    case False
    show ?thesis
    proof (cases "d = JNull")
      case True
      then show ?thesis using Some False by (simp add: add_report_def entries_of_def group_ensure)
    next
      case nn: False
      have "group_of (push_entry ?t (new_entry now (fst f) d) (ensure_group ?t rd)) ty
            = (if ty = ?t then group_of (ensure_group ?t rd) ty @ [new_entry now (fst f) d]
               else group_of (ensure_group ?t rd) ty)"
        using ensure_group_present by (rule group_push_entry)
      then show ?thesis using Some False nn
        by (auto simp: add_report_def entries_of_def group_ensure)
    qed
  qed
qed

lemma group_fold:
  "distinct (map fst rd) \<Longrightarrow>
   group_of (fold (add_report now) dir rd) ty = group_of rd ty @ entries_of now dir ty
   \<and> distinct (map fst (fold (add_report now) dir rd))"
proof (induction dir arbitrary: rd)
  case Nil
  then show ?case by (simp add: entries_of_def)
next
  case (Cons f dir)
  have d: "distinct (map fst (add_report now f rd))" using Cons.prems by (rule add_report_distinct)
  have g: "group_of (add_report now f rd) ty = group_of rd ty @ entries_of now [f] ty"
    by (rule group_add_report)
  have e: "entries_of now (f # dir) ty = entries_of now [f] ty @ entries_of now dir ty"
    by (simp add: entries_of_def)
  show ?case using Cons.IH [OF d] g e by simp
qed

lemma mset_insert_by: "mset (insert_by cmp x ys) = add_mset x (mset ys)"
  by (induction ys) auto

lemma mset_js_sort: "mset (js_sort cmp xs) = mset xs"
  unfolding js_sort_def by (induction xs) (simp_all add: mset_insert_by)

lemma group_map:
  "group_of (map (\<lambda>(ty, es). (ty, js_sort cmp es)) rd) ty = js_sort cmp (group_of rd ty)"
proof (induction rd)
  case Nil
  then show ?case by (simp add: group_of_def js_sort_def)
next
  case (Cons p rd)
  then show ?case by (cases p) (simp add: group_of_def)
qed

lemma group_report:
  "group_of (reports (comprehensiveReport now dir)) ty = js_sort by_timestamp (entries_of now dir ty)"
proof -
  have "group_of (fold (add_report now) dir []) ty = group_of [] ty @ entries_of now dir ty"
    using group_fold [of "[]" now dir ty] by simp
  then have "group_of (fold (add_report now) dir []) ty = entries_of now dir ty"
    by (simp add: group_of_def)
  then show ?thesis by (simp add: comprehensiveReport_def Let_def group_map)
qed

lemma entries_of_update:
  "report_type k \<noteq> ty \<Longrightarrow> entries_of now (AList.update k v dir) ty = entries_of now dir ty"
proof (induction dir)
  case Nil
  then show ?case by (simp add: entries_of_def split: option.splits)
next
  case (Cons f dir)
  then show ?case by (cases f) (auto simp: entries_of_def split: option.splits)
qed

lemma entries_of_insort:
  "report_type k \<noteq> ty \<Longrightarrow> entries_of now (insort_key fst (k, v) dir) ty = entries_of now dir ty"
proof (induction dir)
  case Nil
  then show ?case by (simp add: entries_of_def split: option.splits)
next
  case (Cons f dir)
  have e: "entries_of now (g # fs) ty = entries_of now [g] ty @ entries_of now fs ty" for g fs
    by (simp add: entries_of_def)
  have n: "entries_of now [(k, v)] ty = []"
    using Cons.prems by (simp add: entries_of_def split: option.splits)
  show ?case
  proof (cases "k \<le> fst f")
    case True
    then have "insort_key fst (k, v) (f # dir) = (k, v) # f # dir" by simp
    then show ?thesis using e [of "(k, v)" "f # dir"] n by simp
  next
    case False
    then have "insort_key fst (k, v) (f # dir) = f # insort_key fst (k, v) dir" by simp
    then show ?thesis using e [of f "insort_key fst (k, v) dir"] e [of f dir] Cons.IH [OF Cons.prems]
      by simp
  qed
qed

lemma entries_of_writeFile:
  "report_type k \<noteq> ty \<Longrightarrow> entries_of now (writeFile k v dir) ty = entries_of now dir ty"
  by (simp add: writeFile_def entries_of_update entries_of_insort)

lemma report_name_type: "report_type (''comprehensive_'' @ x) = ''comprehensive''"
  by (simp add: report_type_def)

lemma strip_new_entry: "strip (new_entry n1 f d) = strip (new_entry n2 f d)"
  by (simp add: strip_def new_entry_def)

lemma strip_entries_of: "map strip (entries_of n1 dir ty) = map strip (entries_of n2 dir ty)"
proof (induction dir)
  case Nil
  then show ?case by (simp add: entries_of_def)
next
  case (Cons f dir)
  have e: "entries_of n (f # dir) ty = entries_of n [f] ty @ entries_of n dir ty" for n
    by (simp add: entries_of_def)
  have "map strip (entries_of n1 [f] ty) = map strip (entries_of n2 [f] ty)"
    by (auto simp: entries_of_def strip_new_entry split: option.splits)
  then show ?case using Cons e by simp
qed

lemma stamped_entries_of:
  "\<forall>f\<in>set dir. report_type (fst f) = ty \<longrightarrow> stamped (snd f) \<Longrightarrow>
   entries_of n1 dir ty = entries_of n2 dir ty"
proof (induction dir)
  case Nil
  then show ?case by (simp add: entries_of_def)
next
  case (Cons f dir)
  have e: "entries_of n (f # dir) ty = entries_of n [f] ty @ entries_of n dir ty" for n
    by (simp add: entries_of_def)
  have "entries_of n1 [f] ty = entries_of n2 [f] ty"
    using Cons.prems by (auto simp: entries_of_def new_entry_def js_or_def split: option.splits)
  then show ?case using Cons e by simp
qed

text \<open>
  C8, as stated, fails: with one performance report in the directory and nothing recorded
  between the calls, the \<open>reports\<close> of the second call differ from those of the first:
  they have the additional type \<open>comprehensive\<close>, for the file the first call wrote into
  the directory, and the entry of the performance report, whose data is an array without a
  timestamp of its own, has the time of the second call as its timestamp.
\<close>

theorem second_report_differs:
  "map fst (reports first_report) = [''performance'']
   \<and> map fst (reports second_report) = [''comprehensive'', ''performance'']
   \<and> map entry_timestamp (group_of (reports first_report) ''performance'')
       = [JNum 1700000000500]
   \<and> map entry_timestamp (group_of (reports second_report) ''performance'')
       = [JNum 1700000000900]
   \<and> reports second_report \<noteq> reports first_report"
  by code_simp

lemma mem_update: "(k, v) \<in> set (AList.update k v al)"
  by (induction al) auto

lemma mem_writeFile: "(k, v) \<in> set (writeFile k v dir)"
  by (simp add: writeFile_def mem_update set_insort_key)

lemma entries_of_mem:
  "(n, Some d) \<in> set dir \<Longrightarrow> d \<noteq> JNull \<Longrightarrow> report_type n \<notin> set inherited \<Longrightarrow>
   new_entry now n d \<in> set (entries_of now dir (report_type n))"
  by (force simp: entries_of_def)

lemma set_js_sort: "set (js_sort cmp xs) = set xs"
  using mset_js_sort [of cmp xs] by (metis set_mset_mset)

text \<open>
  C8, amended. For two successive calls of \<open>generateReport\<close> with nothing else written
  between them, and every type other than \<open>comprehensive\<close>: the second report has the same
  files with the same data as the first, up to the order and the timestamps of the entries;
  it has the very same entries when every file of the type carries a timestamp of its own;
  and its type \<open>comprehensive\<close> holds the file that the first call wrote, with the first
  report as its data. Each report is tagged with the time of its call.
\<close>

theorem report_content_up_to_call:
  assumes "r1 = fst (generateReport n1 s)" and "s1 = snd (generateReport n1 s)"
    and "r2 = fst (generateReport n2 s1)"
  shows "(ty \<noteq> ''comprehensive'' \<longrightarrow>
            mset (map strip (group_of (reports r2) ty)) = mset (map strip (group_of (reports r1) ty)))
     \<and> (ty \<noteq> ''comprehensive''
          \<and> (\<forall>f\<in>set (reportsDir s). report_type (fst f) = ty \<longrightarrow> stamped (snd f)) \<longrightarrow>
            group_of (reports r2) ty = group_of (reports r1) ty)
     \<and> (''comprehensive_'' @ show_int n1 @ ''.json'', report_json r1)
          \<in> set (map strip (group_of (reports r2) ''comprehensive''))
     \<and> generated r1 = n1 \<and> generated r2 = n2"
proof -
  let ?c = "''comprehensive_'' @ show_int n1 @ ''.json''"
  let ?d = "reportsDir s"
  have r1: "r1 = comprehensiveReport n1 ?d"
    using assms(1) by (simp add: generateReport_def Let_def)
  have d1: "reportsDir s1 = writeFile ?c (Some (report_json r1)) ?d"
    using assms(1,2) by (simp add: generateReport_def Let_def)
  have r2: "r2 = comprehensiveReport n2 (reportsDir s1)"
    using assms(3) by (simp add: generateReport_def Let_def)
  have g1: "group_of (reports r1) t = js_sort by_timestamp (entries_of n1 ?d t)" for t
    unfolding r1 by (rule group_report)
  have g2: "group_of (reports r2) t = js_sort by_timestamp (entries_of n2 (reportsDir s1) t)" for t
    unfolding r2 by (rule group_report)
  have same: "entries_of n2 (reportsDir s1) ty = entries_of n2 ?d ty" if "ty \<noteq> ''comprehensive''"
  proof -
    have "report_type ?c = ''comprehensive''" by (rule report_name_type)
    then have "report_type ?c \<noteq> ty" using that by simp
    then show ?thesis unfolding d1 by (rule entries_of_writeFile)
  qed
  have a: "mset (map strip (group_of (reports r2) ty)) = mset (map strip (group_of (reports r1) ty))"
    if "ty \<noteq> ''comprehensive''"
  proof -
    have "mset (map strip (group_of (reports r2) ty)) = mset (map strip (entries_of n2 ?d ty))"
      using same [OF that] by (simp add: g2 mset_js_sort)
    also have "\<dots> = mset (map strip (entries_of n1 ?d ty))"
      by (simp only: strip_entries_of [of n2 ?d ty n1])
    also have "\<dots> = mset (map strip (group_of (reports r1) ty))"
      by (simp add: g1 mset_js_sort)
    finally show ?thesis .
  qed
  have b: "group_of (reports r2) ty = group_of (reports r1) ty"
    if "ty \<noteq> ''comprehensive''
          \<and> (\<forall>f\<in>set (reportsDir s). report_type (fst f) = ty \<longrightarrow> stamped (snd f))"
  proof -
    have "entries_of n2 ?d ty = entries_of n1 ?d ty"
      using that by (intro stamped_entries_of) simp
    then show ?thesis using same that by (simp add: g1 g2)
  qed
  have nn: "report_json r1 \<noteq> JNull" by (simp add: report_json_def)
  have ni: "report_type ?c \<notin> set inherited"
    unfolding report_name_type by (simp add: inherited_def)
  have "(?c, Some (report_json r1)) \<in> set (reportsDir s1)" unfolding d1 by (rule mem_writeFile)
  then have "new_entry n2 ?c (report_json r1) \<in> set (entries_of n2 (reportsDir s1) (report_type ?c))"
    using nn ni by (rule entries_of_mem)
  then have "new_entry n2 ?c (report_json r1) \<in> set (group_of (reports r2) ''comprehensive'')"
    by (simp only: g2 set_js_sort report_name_type)
  then have "strip (new_entry n2 ?c (report_json r1)) \<in> strip ` set (group_of (reports r2) ''comprehensive'')"
    by (rule imageI)
  then have c: "(?c, report_json r1) \<in> set (map strip (group_of (reports r2) ''comprehensive''))"
    by (simp add: strip_def new_entry_def)
  have g: "generated r1 = n1" "generated r2 = n2"
    by (simp_all add: r1 r2 comprehensiveReport_def Let_def)
  show ?thesis using a b c g by blast
qed

theorem report_content_up_to_call_witness:
  "mset (map strip (group_of (reports (fst twice)) ''performance''))
     = mset (map strip (group_of (reports (fst once)) ''performance''))
   \<and> map strip (group_of (reports (fst once)) ''performance'')
       = [(''performance_1700000000001.json'', perf_ok 50 900)]
   \<and> list_all (\<lambda>f. report_type (fst f) = ''visual'' \<longrightarrow> stamped (snd f)) two_reports
   \<and> group_of (reports (fst twice)) ''visual'' = group_of (reports (fst once)) ''visual''
   \<and> map entry_timestamp (group_of (reports (fst once)) ''visual'') = [JNum 1700000000002]
   \<and> (''comprehensive_1700000000500.json'', report_json (fst once))
        \<in> set (map strip (group_of (reports (fst twice)) ''comprehensive''))
   \<and> generated (fst once) = 1700000000500 \<and> generated (fst twice) = 1700000000900"
proof -
  have h1: "fst once = fst (generateReport 1700000000500 (constructor two_reports))"
    and h2: "snd once = snd (generateReport 1700000000500 (constructor two_reports))"
    and h3: "fst twice = fst (generateReport 1700000000900 (snd once))"
    by (simp_all add: once_def twice_def)
  have h4: "list_all (\<lambda>f. report_type (fst f) = ''visual'' \<longrightarrow> stamped (snd f)) two_reports"
    by code_simp
  then have h4': "\<forall>f\<in>set (reportsDir (constructor two_reports)).
      report_type (fst f) = ''visual'' \<longrightarrow> stamped (snd f)"
    by (simp add: list_all_iff constructor_def)
  have n: "show_int 1700000000500 = ''1700000000500''" by code_simp
  have e1: "map strip (group_of (reports (fst once)) ''performance'')
       = [(''performance_1700000000001.json'', perf_ok 50 900)]" by code_simp
  have e2: "map entry_timestamp (group_of (reports (fst once)) ''visual'') = [JNum 1700000000002]"
    by code_simp
  note P = report_content_up_to_call [OF h1 h2 h3, of "''performance''"]
  note V = report_content_up_to_call [OF h1 h2 h3, of "''visual''"]
  have a: "mset (map strip (group_of (reports (fst twice)) ''performance''))
     = mset (map strip (group_of (reports (fst once)) ''performance''))"
    using P by simp
  have b: "group_of (reports (fst twice)) ''visual'' = group_of (reports (fst once)) ''visual''"
    using V h4' by simp
  have c: "(''comprehensive_1700000000500.json'', report_json (fst once))
        \<in> set (map strip (group_of (reports (fst twice)) ''comprehensive''))"
    using P n by simp
  have g: "generated (fst once) = 1700000000500 \<and> generated (fst twice) = 1700000000900"
    using P by simp
  show ?thesis using a b c g h4 e1 e2 by simp
qed

subsection \<open>Scheduler\<close>







end
